theory Spec2Isabelle
  imports Main "HOL-Library.Sublist"
begin

section \<open>Syntax trees, positions and annotations\<close>

text \<open>
  The calculator works on the trees of Python's lib2to3. A leaf is a token with the name
  of its token type, its line number, its column and its text; a composite node has the
  name of its grammar symbol and its children. Token names (\<open>COMMENT\<close>, \<open>STRING\<close>,
  \<open>ASYNC\<close>, \<open>NEWLINE\<close>, ...) and grammar symbols (\<open>funcdef\<close>, \<open>simple_stmt\<close>, ...) are
  disjoint in lib2to3: a leaf is never dispatched to the visitor method of a symbol.
\<close>

datatype leaf = Token (tok_name: string) (lineno: int) (column: int) (tok_value: string)

datatype tree = Leaf leaf | Node string "tree list"

text \<open>
  Modelled from the spec: \<open>pytree_utils.NodeName\<close> is not among the sources. It is the
  kind tag of section 3: the name of the token type of a leaf, the name of the grammar
  symbol of a composite node.
\<close>

fun NodeName :: "tree \<Rightarrow> string" where
  "NodeName (Leaf l) = tok_name l"
| "NodeName (Node nm cs) = nm"

fun children :: "tree \<Rightarrow> tree list" where
  "children (Leaf l) = []"
| "children (Node nm cs) = cs"

text \<open>
  Python's object identity of a node is its place in the tree: the path of child indices
  from the root. The parent and sibling pointers of a node are its position: the chain of
  (ancestor, index of the child in it), nearest parent first.
\<close>

type_synonym path = "nat list"

type_synonym position = "(tree \<times> nat) list"

definition path_of :: "position \<Rightarrow> path" where
  "path_of pos = rev (map snd pos)"

fun prev_sibling :: "position \<Rightarrow> tree option" where
  "prev_sibling [] = None"
| "prev_sibling ((par, i) # pos) = (if i = 0 then None else Some (children par ! (i - 1)))"

text \<open>
  The exceptions a malformed tree raises. An exception ends the run; the annotations set
  before it are not kept in the model, and the properties below are about runs that end
  normally.
\<close>

datatype error = IndexError | AttributeError

definition bind_err :: "error + 'a \<Rightarrow> ('a \<Rightarrow> error + 'b) \<Rightarrow> error + 'b" where
  "bind_err r f = (case r of Inl e \<Rightarrow> Inl e | Inr x \<Rightarrow> f x)"

text \<open>\<open>node.children[i]\<close> raises IndexError out of range.\<close>

definition child :: "tree \<Rightarrow> nat \<Rightarrow> error + tree" where
  "child node i = (if i < length (children node) then Inr (children node ! i) else Inl IndexError)"

text \<open>Only leaves have the attributes \<open>lineno\<close> and \<open>column\<close>.\<close>

fun lineno_attr :: "tree \<Rightarrow> error + int" where
  "lineno_attr (Leaf l) = Inr (lineno l)"
| "lineno_attr (Node nm cs) = Inl AttributeError"

fun column_attr :: "tree \<Rightarrow> error + int" where
  "column_attr (Leaf l) = Inr (column l)"
| "column_attr (Node nm cs) = Inl AttributeError"

text \<open>\<open>str.count\<close> of a single character.\<close>

definition str_count :: "string \<Rightarrow> char \<Rightarrow> int" where
  "str_count s c = int (count_list s c)"

text \<open>
  Modelled from the spec: \<open>pytree_utils.SetNodeAnnotation\<close> is not among the sources.
  By section 3 an annotation is a value attached to the identity of a tree element, written
  by this module only. A pass is modelled by the list of its \<open>SetNodeAnnotation\<close>
  calls, in order; applying them to a store gives the annotations the printer reads.
\<close>

fun apply_writes :: "(path \<times> 'v) list \<Rightarrow> (path \<rightharpoonup> 'v) \<Rightarrow> (path \<rightharpoonup> 'v)" where
  "apply_writes [] m = m"
| "apply_writes ((p, v) # ws) m = apply_writes ws (m(p \<mapsto> v))"

section \<open>Pass 1: the original blank lines\<close>

text \<open>
  The state of \<open>_OriginalBlankLinesCalculator\<close>, with the \<open>ORIGINAL_NEWLINES\<close>
  annotations it has set.
\<close>

record recorder =
  level :: int
  first_tokens :: "(path \<times> leaf) list"
  original_newlines :: "(path \<times> int) list"

definition recorder_init :: recorder where
  "recorder_init = \<lparr>level = 0, first_tokens = [], original_newlines = []\<rparr>"

text \<open>
  The body of the loop of \<open>_compute_newlines\<close>, the cursor \<open>prev\<close> threaded through.
\<close>

fun compute_loop :: "int \<Rightarrow> (path \<times> leaf) list \<Rightarrow> (path \<times> int) list" where
  "compute_loop prev [] = []"
| "compute_loop prev ((p, l) # leaves) =
     (let offset = (if tok_name l = ''COMMENT'' then str_count (tok_value l) (CHR 0x0A) else 0);
          newlines = lineno l - prev - offset;
          prev1 = lineno l;
          prev2 = (if tok_name l = ''STRING'' then prev1 + str_count (tok_value l) (CHR 0x0A)
                   else prev1)
      in (p, newlines) # compute_loop prev2 leaves)"

text \<open>\<open>sorted\<close> is stable, as is \<open>sort_key\<close>.\<close>

definition compute_newlines :: "recorder \<Rightarrow> recorder" where
  "compute_newlines st =
     (let leaves = sort_key (\<lambda>t. lineno (snd t)) (first_tokens st)
      in st\<lparr>original_newlines := original_newlines st @ compute_loop 1 leaves\<rparr>)"

text \<open>
  In \<open>DefaultLeafVisit\<close> the left operand of \<open>!=\<close> is the bound method \<open>get_lineno\<close> of
  the last recorded token (the source does not call it), the right operand is an integer.
  Python compares two objects of unrelated types by identity.
\<close>

datatype pyobj = PyInt int | PyBoundMethod path

definition Orig_DefaultLeafVisit :: "path \<Rightarrow> leaf \<Rightarrow> recorder \<Rightarrow> recorder" where
  "Orig_DefaultLeafVisit p l st =
     (if first_tokens st = []
         \<or> PyBoundMethod (fst (last (first_tokens st))) \<noteq> PyInt (lineno l)
      then st\<lparr>first_tokens := first_tokens st @ [(p, l)]\<rparr>
      else st)"

text \<open>The end of \<open>Visit\<close>: leave the level, and compute at the exit from the root.\<close>

definition Orig_Visit_exit :: "recorder \<Rightarrow> recorder" where
  "Orig_Visit_exit st =
     (let st1 = st\<lparr>level := level st - 1\<rparr>
      in if level st1 = 0 then compute_newlines st1 else st1)"

text \<open>
  Modelled from the spec: \<open>pytree_visitor.PyTreeVisitor\<close> is not among the sources. By
  sections 4 and 9 its \<open>Visit\<close> dispatches on the kind of the element: to the method
  \<open>Visit_<kind>\<close> when the visitor has one (here the three layout tokens, which are
  skipped), else to \<open>DefaultLeafVisit\<close> for a leaf and to \<open>DefaultNodeVisit\<close> for a
  composite node, which visits the children in order. \<open>Orig_Visit\<close> is the overriding
  \<open>Visit\<close> of \<open>_OriginalBlankLinesCalculator\<close> around that dispatch.
\<close>

fun Orig_Visit :: "path \<Rightarrow> tree \<Rightarrow> recorder \<Rightarrow> recorder"
and Orig_DefaultNodeVisit :: "path \<Rightarrow> nat \<Rightarrow> tree list \<Rightarrow> recorder \<Rightarrow> recorder" where
  "Orig_Visit p (Leaf l) st =
     (let st1 = st\<lparr>level := level st + 1\<rparr>;
          st2 = (if tok_name l = ''INDENT'' \<or> tok_name l = ''DEDENT'' \<or> tok_name l = ''NEWLINE''
                 then st1
                 else Orig_DefaultLeafVisit p l st1)
      in Orig_Visit_exit st2)"
| "Orig_Visit p (Node nm cs) st =
     (let st1 = st\<lparr>level := level st + 1\<rparr>;
          st2 = Orig_DefaultNodeVisit p 0 cs st1
      in Orig_Visit_exit st2)"
| "Orig_DefaultNodeVisit p i [] st = st"
| "Orig_DefaultNodeVisit p i (c # cs) st =
     Orig_DefaultNodeVisit p (Suc i) cs (Orig_Visit (p @ [i]) c st)"

text \<open>The first half of \<open>CalculateBlankLines\<close>: a fresh recorder visits the tree.\<close>

definition OriginalBlankLines :: "tree \<Rightarrow> (path \<times> int) list" where
  "OriginalBlankLines tree = original_newlines (Orig_Visit [] tree recorder_init)"

section \<open>Pass 2: the required blank lines\<close>

definition NO_BLANK_LINES :: int where "NO_BLANK_LINES = 1"
definition ONE_BLANK_LINE :: int where "ONE_BLANK_LINE = 2"
definition TWO_BLANK_LINES :: int where "TWO_BLANK_LINES = 3"

definition PYTHON_STATEMENTS :: "string set" where
  "PYTHON_STATEMENTS = {
    ''small_stmt'', ''expr_stmt'', ''print_stmt'', ''del_stmt'', ''pass_stmt'',
    ''break_stmt'', ''continue_stmt'', ''return_stmt'', ''raise_stmt'', ''yield_stmt'',
    ''import_stmt'', ''global_stmt'', ''exec_stmt'', ''assert_stmt'', ''if_stmt'',
    ''while_stmt'', ''for_stmt'', ''try_stmt'', ''with_stmt'', ''nonlocal_stmt'',
    ''async_stmt'', ''simple_stmt''}"

text \<open>
  Modelled from the spec: \<open>style.Get\<close> is not among the sources. By section 6 the style
  provider gives the integer option \<open>BLANK_LINES_AROUND_TOP_LEVEL_DEFINITION\<close>.
\<close>

record style =
  BLANK_LINES_AROUND_TOP_LEVEL_DEFINITION :: int

text \<open>
  Modelled from the spec: \<open>py3compat.PY3\<close> is not among the sources. The async rules
  of section 4.2 have no condition on the Python version, and the module runs on Python 3
  only (its \<open>super()\<close> has no arguments).
\<close>

definition PY3 :: bool where
  "PY3 = True"

text \<open>
  The state of \<open>_BlankLineCalculator\<close>, with the \<open>NEWLINES\<close> annotations it has set
  (\<open>None\<close> is the Python value \<open>None\<close>).
\<close>

record calc =
  class_level :: int
  function_level :: int
  last_comment_lineno :: int
  last_was_decorator :: bool
  last_was_class_or_function :: bool
  newlines :: "(path \<times> int option) list"

definition calc_init :: calc where
  "calc_init = \<lparr>class_level = 0, function_level = 0, last_comment_lineno = 0,
     last_was_decorator = False, last_was_class_or_function = False, newlines = []\<rparr>"

text \<open>
  Modelled from the spec: \<open>pytree_utils.FirstLeafNode\<close> is not among the sources. The
  first leaf of a node (section 4.2) is reached by following the first children; a
  composite node without children is a contract violation (section 7).
\<close>

fun FirstLeafNode :: "position \<Rightarrow> tree \<Rightarrow> error + (position \<times> leaf)" where
  "FirstLeafNode pos (Leaf l) = Inr (pos, l)"
| "FirstLeafNode pos (Node nm []) = Inl IndexError"
| "FirstLeafNode pos (Node nm (c # cs)) = FirstLeafNode ((Node nm (c # cs), 0) # pos) c"

text \<open>
  Modelled from the spec: \<open>pytree_utils.IsCommentStatement\<close> is not among the sources.
  A comment statement (section 4.2) is a comment-only simple statement: a \<open>simple_stmt\<close>
  whose first child is a \<open>COMMENT\<close> token (the source: "wrapped in a simple_stmt node
  with the comment node as its only child").
\<close>

fun IsCommentStatement :: "tree \<Rightarrow> error + bool" where
  "IsCommentStatement (Leaf l) = Inr False"
| "IsCommentStatement (Node nm cs) =
     (if nm = ''simple_stmt''
      then (case cs of
              [] \<Rightarrow> Inl IndexError
            | Leaf l # _ \<Rightarrow> Inr (tok_name l = ''COMMENT'')
            | Node _ _ # _ \<Rightarrow> Inr False)
      else Inr False)"

text \<open>The node is passed as its position: only its previous sibling is read.\<close>

definition AsyncFunction :: "position \<Rightarrow> bool" where
  "AsyncFunction pos =
     (PY3 \<and> (case prev_sibling pos of None \<Rightarrow> False | Some s \<Rightarrow> NodeName s = ''ASYNC''))"

definition StartsInZerothColumn :: "position \<Rightarrow> tree \<Rightarrow> error + bool" where
  "StartsInZerothColumn pos node =
     bind_err (FirstLeafNode pos node) (\<lambda>(lpos, l).
       if column l = 0 then Inr True
       else if AsyncFunction pos
       then (case prev_sibling pos of
               None \<Rightarrow> Inr False
             | Some s \<Rightarrow> bind_err (column_attr s) (\<lambda>c. Inr (c = 0)))
       else Inr False)"

definition first_leaf_is_comment :: "position \<Rightarrow> tree \<Rightarrow> error + bool" where
  "first_leaf_is_comment pos node =
     bind_err (FirstLeafNode pos node) (\<lambda>(lpos, l). Inr (tok_name l = ''COMMENT''))"

definition IsTopLevel :: "calc \<Rightarrow> position \<Rightarrow> tree \<Rightarrow> error + bool" where
  "IsTopLevel st pos node =
     (if class_level st \<noteq> 0 \<or> function_level st \<noteq> 0 then Inr False
      else bind_err (StartsInZerothColumn pos node) (\<lambda>z.
             if z then Inr True else first_leaf_is_comment pos node))"

definition GetNumNewlines :: "style \<Rightarrow> calc \<Rightarrow> position \<Rightarrow> tree \<Rightarrow> error + int" where
  "GetNumNewlines sty st pos node =
     (if last_was_decorator st then Inr NO_BLANK_LINES
      else bind_err (IsTopLevel st pos node) (\<lambda>top.
             if top then Inr (1 + BLANK_LINES_AROUND_TOP_LEVEL_DEFINITION sty)
             else Inr ONE_BLANK_LINE))"

definition SetNumNewlines :: "path \<Rightarrow> int option \<Rightarrow> calc \<Rightarrow> calc" where
  "SetNumNewlines p num_newlines st = st\<lparr>newlines := newlines st @ [(p, num_newlines)]\<rparr>"

text \<open>
  Modelled from the spec: \<open>PyTreeVisitor.DefaultLeafVisit\<close> is not among the sources.
  \<open>_BlankLineCalculator\<close> has no visitor method for a token, so that \<open>Visit\<close> of a
  leaf is the inherited \<open>DefaultLeafVisit\<close>; leaves are not governed on their own
  (section 4.2) and it does nothing.
\<close>

definition DefaultLeafVisit :: "calc \<Rightarrow> calc" where
  "DefaultLeafVisit st = st"

text \<open>
  The \<open>while\<close> loop of \<open>_SetBlankLinesBetweenCommentAndClassFunc\<close> over the children
  from \<open>index\<close> on: \<open>node.children[index]\<close> raises IndexError when the children
  are used up. The visited child of a comment statement is its COMMENT leaf.
\<close>

fun leading_comments :: "path \<Rightarrow> tree list \<Rightarrow> nat \<Rightarrow> calc \<Rightarrow> error + (nat \<times> calc)" where
  "leading_comments p [] index st = Inl IndexError"
| "leading_comments p (c # cs) index st =
     (case IsCommentStatement c of
        Inl e \<Rightarrow> Inl e
      | Inr False \<Rightarrow> Inr (index, st)
      | Inr True \<Rightarrow>
          (let st1 = DefaultLeafVisit st;
               st2 = (if \<not> last_was_decorator st1
                      then SetNumNewlines (p @ [index, 0]) (Some ONE_BLANK_LINE) st1
                      else st1)
           in leading_comments p cs (index + 1) st2))"

definition SetBlankLinesBetweenCommentAndClassFunc ::
    "style \<Rightarrow> position \<Rightarrow> tree \<Rightarrow> calc \<Rightarrow> error + (nat \<times> calc)" where
  "SetBlankLinesBetweenCommentAndClassFunc sty pos node st =
     bind_err (leading_comments (path_of pos) (children node) 0 st) (\<lambda>(index, st1).
     bind_err (child node index) (\<lambda>c.
     bind_err (lineno_attr c) (\<lambda>ln.
     bind_err (if index \<noteq> 0
               then bind_err (child node (index - 1)) (\<lambda>cm.
                    bind_err (child cm 0) (\<lambda>cl.
                    bind_err (lineno_attr cl) (\<lambda>cln. Inr (ln - 1 = cln))))
               else Inr False) (\<lambda>glued.
     if glued
     then Inr (index, SetNumNewlines (path_of pos @ [index]) (Some NO_BLANK_LINES) st1)
     else bind_err (if last_comment_lineno st1 + 1 = ln then Inr NO_BLANK_LINES
                    else GetNumNewlines sty st1 pos node) (\<lambda>num_newlines.
          Inr (index, SetNumNewlines (path_of pos @ [index]) (Some num_newlines) st1))))))"

text \<open>The statements of \<open>Visit_decorator\<close> before its children are visited.\<close>

definition Visit_decorator_enter :: "style \<Rightarrow> position \<Rightarrow> tree \<Rightarrow> calc \<Rightarrow> error + calc" where
  "Visit_decorator_enter sty pos node st =
     bind_err (if last_comment_lineno st \<noteq> 0
               then bind_err (child node 0) (\<lambda>c.
                    bind_err (lineno_attr c) (\<lambda>ln. Inr (last_comment_lineno st = ln - 1)))
               else Inr False) (\<lambda>glued.
     if glued then Inr (SetNumNewlines (path_of pos @ [0]) (Some NO_BLANK_LINES) st)
     else bind_err (child node 0) (\<lambda>c.
          bind_err (GetNumNewlines sty st pos node) (\<lambda>n.
          Inr (SetNumNewlines (path_of pos @ [0]) (Some n) st))))"

text \<open>The statements of \<open>Visit_classdef\<close> before its children are visited.\<close>

definition Visit_classdef_enter ::
    "style \<Rightarrow> position \<Rightarrow> tree \<Rightarrow> calc \<Rightarrow> error + (nat \<times> calc)" where
  "Visit_classdef_enter sty pos node st =
     (let st1 = st\<lparr>last_was_class_or_function := False\<rparr>
      in bind_err (SetBlankLinesBetweenCommentAndClassFunc sty pos node st1) (\<lambda>(index, st2).
         let st3 = st2\<lparr>last_was_decorator := False\<rparr>;
             st4 = st3\<lparr>class_level := class_level st3 + 1\<rparr>
         in Inr (index, st4)))"

text \<open>
  The statements of \<open>Visit_funcdef\<close> before its children are visited.
  \<open>node.prev_sibling.parent\<close> is the parent of the node.
\<close>

definition Visit_funcdef_enter ::
    "style \<Rightarrow> position \<Rightarrow> tree \<Rightarrow> calc \<Rightarrow> error + (nat \<times> calc)" where
  "Visit_funcdef_enter sty pos node st =
     (let st1 = st\<lparr>last_was_class_or_function := False\<rparr>
      in bind_err (SetBlankLinesBetweenCommentAndClassFunc sty pos node st1) (\<lambda>(index0, st2).
         bind_err (if AsyncFunction pos
                   then bind_err (SetBlankLinesBetweenCommentAndClassFunc sty
                                    (tl pos) (fst (hd pos)) st2) (\<lambda>(index, st3).
                        bind_err (child node 0) (\<lambda>c.
                        Inr (index, SetNumNewlines (path_of pos @ [0]) None st3)))
                   else SetBlankLinesBetweenCommentAndClassFunc sty pos node st2)
           (\<lambda>(index, st4).
         let st5 = st4\<lparr>last_was_decorator := False\<rparr>;
             st6 = st5\<lparr>function_level := function_level st5 + 1\<rparr>
         in Inr (index, st6))))"

text \<open>
  The statements of the overridden \<open>DefaultNodeVisit\<close> before the inherited one visits
  the children.
\<close>

definition DefaultNodeVisit_enter :: "style \<Rightarrow> position \<Rightarrow> tree \<Rightarrow> calc \<Rightarrow> error + calc" where
  "DefaultNodeVisit_enter sty pos node st =
     bind_err (if last_was_class_or_function st \<and> NodeName node \<in> PYTHON_STATEMENTS
               then bind_err (FirstLeafNode pos node) (\<lambda>(lpos, l).
                    bind_err (GetNumNewlines sty st lpos (Leaf l)) (\<lambda>n.
                    Inr (SetNumNewlines (path_of lpos) (Some n) st)))
               else Inr st) (\<lambda>st1.
     Inr (st1\<lparr>last_was_class_or_function := False\<rparr>))"

text \<open>The statements of \<open>Visit_simple_stmt\<close> after \<open>DefaultNodeVisit\<close>.\<close>

definition Visit_simple_stmt_exit :: "tree \<Rightarrow> calc \<Rightarrow> error + calc" where
  "Visit_simple_stmt_exit node st =
     bind_err (child node 0) (\<lambda>c.
     if NodeName c = ''COMMENT''
     then bind_err (lineno_attr c) (\<lambda>ln. Inr (st\<lparr>last_comment_lineno := ln\<rparr>))
     else Inr st)"

text \<open>
  Modelled from the spec: \<open>PyTreeVisitor.Visit\<close> and the inherited
  \<open>DefaultNodeVisit\<close> are not among the sources. \<open>Visit\<close> dispatches on the name of
  the node to \<open>Visit_decorator\<close>, \<open>Visit_classdef\<close>, \<open>Visit_funcdef\<close> and
  \<open>Visit_simple_stmt\<close>, and to \<open>DefaultNodeVisit\<close> for any other composite node
  (section 4.2, the traversal rules by node kind). \<open>Visit_children\<close> is the loop
  \<open>for child in ...: self.Visit(child)\<close> over the children of \<open>par\<close> from index
  \<open>i\<close> on.
\<close>

function (sequential) Visit :: "style \<Rightarrow> position \<Rightarrow> tree \<Rightarrow> calc \<Rightarrow> error + calc"
and Visit_children :: "style \<Rightarrow> position \<Rightarrow> tree \<Rightarrow> nat \<Rightarrow> tree list \<Rightarrow> calc \<Rightarrow> error + calc"
where
  "Visit sty pos (Leaf l) st = Inr (DefaultLeafVisit st)"
| "Visit sty pos (Node nm cs) st =
     (if nm = ''decorator'' then
        (case Visit_decorator_enter sty pos (Node nm cs) st of
           Inl e \<Rightarrow> Inl e
         | Inr st1 \<Rightarrow>
             (case Visit_children sty pos (Node nm cs) 0 cs st1 of
                Inl e \<Rightarrow> Inl e
              | Inr st2 \<Rightarrow> Inr (st2\<lparr>last_was_decorator := True\<rparr>)))
      else if nm = ''classdef'' then
        (case Visit_classdef_enter sty pos (Node nm cs) st of
           Inl e \<Rightarrow> Inl e
         | Inr (index, st1) \<Rightarrow>
             (case Visit_children sty pos (Node nm cs) index (drop index cs) st1 of
                Inl e \<Rightarrow> Inl e
              | Inr st2 \<Rightarrow>
                  Inr (st2\<lparr>class_level := class_level st2 - 1,
                           last_was_class_or_function := True\<rparr>)))
      else if nm = ''funcdef'' then
        (case Visit_funcdef_enter sty pos (Node nm cs) st of
           Inl e \<Rightarrow> Inl e
         | Inr (index, st1) \<Rightarrow>
             (case Visit_children sty pos (Node nm cs) index (drop index cs) st1 of
                Inl e \<Rightarrow> Inl e
              | Inr st2 \<Rightarrow>
                  Inr (st2\<lparr>function_level := function_level st2 - 1,
                           last_was_class_or_function := True\<rparr>)))
      else
        (case DefaultNodeVisit_enter sty pos (Node nm cs) st of
           Inl e \<Rightarrow> Inl e
         | Inr st1 \<Rightarrow>
             (case Visit_children sty pos (Node nm cs) 0 cs st1 of
                Inl e \<Rightarrow> Inl e
              | Inr st2 \<Rightarrow>
                  if nm = ''simple_stmt'' then Visit_simple_stmt_exit (Node nm cs) st2
                  else Inr st2)))"
| "Visit_children sty pos par i [] st = Inr st"
| "Visit_children sty pos par i (c # cs) st =
     (case Visit sty ((par, i) # pos) c st of
        Inl e \<Rightarrow> Inl e
      | Inr st1 \<Rightarrow> Visit_children sty pos par (Suc i) cs st1)"
  by pat_completeness auto

termination
proof -
  have drop_le: "size_list f (drop n xs) \<le> size_list f xs"
    for f :: "tree \<Rightarrow> nat" and n xs
  proof (induction xs arbitrary: n)
    case Nil
    show ?case by simp
  next
    case (Cons x xs)
    show ?case
    proof (cases n)
      case 0
      then show ?thesis by simp
    next
      case (Suc m)
      have "size_list f (drop m xs) \<le> size_list f xs" by (rule Cons.IH)
      with Suc show ?thesis by simp
    qed
  qed
  have drop_less: "2 * size_list f (drop n xs) < Suc (2 * size_list f xs)"
    for f :: "tree \<Rightarrow> nat" and n xs
    using drop_le [of f n xs] by simp
  show ?thesis
    by (relation "measure (\<lambda>x. case x of
           Inl (sty, pos, node, st) \<Rightarrow> 2 * size node
         | Inr (sty, pos, par, i, cs, st) \<Rightarrow> 2 * size_list size cs + 1)")
      (simp_all add: drop_less)
qed

text \<open>The second half of \<open>CalculateBlankLines\<close>: a fresh calculator visits the tree.\<close>

definition RequiredBlankLines :: "style \<Rightarrow> tree \<Rightarrow> error + (path \<times> int option) list" where
  "RequiredBlankLines sty tree =
     (case Visit sty [] tree calc_init of Inl e \<Rightarrow> Inl e | Inr st \<Rightarrow> Inr (newlines st))"

section \<open>Specification-level notions\<close>

text \<open>
  The tokens pass 1 meets, in document order, each with its path: every leaf but the
  layout tokens \<open>INDENT\<close>, \<open>DEDENT\<close> and \<open>NEWLINE\<close>.
\<close>

fun is_layout :: "leaf \<Rightarrow> bool" where
  "is_layout l = (tok_name l = ''INDENT'' \<or> tok_name l = ''DEDENT'' \<or> tok_name l = ''NEWLINE'')"

fun tokens_of :: "path \<Rightarrow> tree \<Rightarrow> (path \<times> leaf) list"
and tokens_of_children :: "path \<Rightarrow> nat \<Rightarrow> tree list \<Rightarrow> (path \<times> leaf) list" where
  "tokens_of p (Leaf l) = (if is_layout l then [] else [(p, l)])"
| "tokens_of p (Node nm cs) = tokens_of_children p 0 cs"
| "tokens_of_children p i [] = []"
| "tokens_of_children p i (c # cs) = tokens_of (p @ [i]) c @ tokens_of_children p (Suc i) cs"

text \<open>
  The assignment of section 4.1 in the spec's words, for the k-th leaf of the sorted
  worklist: \<open>spec_offset\<close> is the number of line breaks in the text of a comment,
  \<open>spec_last_line\<close> the line up to which a leaf advances the cursor (past the line
  breaks of a string), \<open>spec_prev\<close> the cursor before the k-th leaf, and
  \<open>spec_newlines\<close> the value line number - prev - offset.
\<close>

definition spec_offset :: "leaf \<Rightarrow> int" where
  "spec_offset l = (if tok_name l = ''COMMENT'' then str_count (tok_value l) (CHR 0x0A) else 0)"

definition spec_last_line :: "leaf \<Rightarrow> int" where
  "spec_last_line l =
     (if tok_name l = ''STRING'' then lineno l + str_count (tok_value l) (CHR 0x0A) else lineno l)"

definition spec_prev :: "int \<Rightarrow> (path \<times> leaf) list \<Rightarrow> nat \<Rightarrow> int" where
  "spec_prev start leaves k = (if k = 0 then start else spec_last_line (snd (leaves ! (k - 1))))"

definition spec_newlines :: "int \<Rightarrow> (path \<times> leaf) list \<Rightarrow> nat \<Rightarrow> path \<times> int" where
  "spec_newlines start leaves k =
     (fst (leaves ! k),
      lineno (snd (leaves ! k)) - spec_prev start leaves k - spec_offset (snd (leaves ! k)))"

text \<open>
  The lines a token occupies: a comment is reported at its last line, a string at its
  first. \<open>in_source_order\<close> says of a list of tokens that each begins at or after
  the line where the one before ends, the first at line \<open>prev\<close> or later.
\<close>

definition spec_first_line :: "leaf \<Rightarrow> int" where
  "spec_first_line l = lineno l - spec_offset l"

fun in_source_order :: "int \<Rightarrow> (path \<times> leaf) list \<Rightarrow> bool" where
  "in_source_order prev [] = True"
| "in_source_order prev ((p, l) # leaves) =
     (prev \<le> spec_first_line l \<and> in_source_order (spec_last_line l) leaves)"

text \<open>
  The line metadata of a tree is accurate when it can come from a source text, whatever the
  order of the tokens in the tree (the comment splicer puts comment leaves where they
  attach, which need not be where their lines are). Every token begins at line 1 or later.
  Of two tokens one ends at or before the line where the other begins
  (\<open>before_in_source\<close>; they may share that line). Two tokens reported at the same
  line number stand in the tree in their source order. \<open>consistent_lines a b\<close> is
  the condition on a token \<open>a\<close> and a token \<open>b\<close> that comes later in the tree.
\<close>

definition before_in_source :: "leaf \<Rightarrow> leaf \<Rightarrow> bool" where
  "before_in_source a b = (spec_last_line a \<le> spec_first_line b)"

definition consistent_lines :: "leaf \<Rightarrow> leaf \<Rightarrow> bool" where
  "consistent_lines a b =
     ((before_in_source a b \<or> before_in_source b a)
      \<and> (lineno a = lineno b \<longrightarrow> before_in_source a b))"

fun accurate_lines :: "(path \<times> leaf) list \<Rightarrow> bool" where
  "accurate_lines [] = True"
| "accurate_lines ((p, l) # leaves) =
     (1 \<le> spec_first_line l \<and> list_all (\<lambda>t. consistent_lines l (snd t)) leaves
      \<and> accurate_lines leaves)"

definition well_formed_layout :: "tree \<Rightarrow> bool" where
  "well_formed_layout tree = accurate_lines (tokens_of [] tree)"

text \<open>
  A run of pass 1 on a tree, as a function on the store of \<open>ORIGINAL_NEWLINES\<close>
  annotations.
\<close>

definition OriginalSpacingRecorder :: "tree \<Rightarrow> (path \<rightharpoonup> int) \<Rightarrow> (path \<rightharpoonup> int)" where
  "OriginalSpacingRecorder tree store = apply_writes (OriginalBlankLines tree) store"

text \<open>
  \<open>add_writes\<close> appends \<open>NEWLINES\<close> writes to the state; a comment statement is a
  node on which \<open>IsCommentStatement\<close> is true; \<open>comment_writes\<close> are the writes of
  the loop of \<open>_SetBlankLinesBetweenCommentAndClassFunc\<close> on n leading comments from
  index i on.
\<close>

definition add_writes :: "(path \<times> int option) list \<Rightarrow> calc \<Rightarrow> calc" where
  "add_writes ws st = st\<lparr>newlines := newlines st @ ws\<rparr>"

definition is_comment_statement :: "tree \<Rightarrow> bool" where
  "is_comment_statement t = (IsCommentStatement t = Inr True)"

definition comment_writes :: "path \<Rightarrow> calc \<Rightarrow> nat \<Rightarrow> nat \<Rightarrow> (path \<times> int option) list" where
  "comment_writes p st i n =
     (if last_was_decorator st then []
      else map (\<lambda>j. (p @ [j, 0], Some ONE_BLANK_LINE)) [i..<i + n])"

text \<open>
  The last leading comment is on the line just before the keyword leaf.
\<close>

definition glued :: "tree list \<Rightarrow> leaf \<Rightarrow> bool" where
  "glued cms kw =
     (cms \<noteq> [] \<and> (case last cms of
                     Node nm (Leaf cl # tl0) \<Rightarrow> lineno kw - 1 = lineno cl
                   | _ \<Rightarrow> False))"

text \<open>
  The three integer values of \<open>_GetNumNewlines\<close>.
\<close>

definition spacing_values :: "style \<Rightarrow> int option set" where
  "spacing_values sty =
     {Some NO_BLANK_LINES, Some ONE_BLANK_LINE, Some (1 + BLANK_LINES_AROUND_TOP_LEVEL_DEFINITION sty)}"

text \<open>
  The paths of the first children of the function definitions whose previous sibling is
  the \<open>ASYNC\<close> token.
\<close>

fun async_keywords :: "position \<Rightarrow> tree \<Rightarrow> path list"
and async_keywords_children :: "position \<Rightarrow> tree \<Rightarrow> nat \<Rightarrow> tree list \<Rightarrow> path list" where
  "async_keywords pos (Leaf l) = []"
| "async_keywords pos (Node nm cs) =
     (if nm = ''funcdef'' \<and> AsyncFunction pos then [path_of pos @ [0]] else [])
     @ async_keywords_children pos (Node nm cs) 0 cs"
| "async_keywords_children pos par i [] = []"
| "async_keywords_children pos par i (c # cs) =
     async_keywords ((par, i) # pos) c @ async_keywords_children pos par (Suc i) cs"

text \<open>
  Where a visit may write: below the visited node, or below its parent when the node is an
  async function definition. \<open>write_ok\<close> and \<open>children_ok\<close> say of one write of
  the visit of a node, and of the children of a node from index i on, where it goes and
  which value it has; \<open>extends st st' P\<close> says that the writes of \<open>st'\<close> are those of
  \<open>st\<close> followed by writes that satisfy \<open>P\<close>.
\<close>

definition under :: "position \<Rightarrow> tree \<Rightarrow> path \<Rightarrow> bool" where
  "under pos node p =
     (prefix (path_of pos) p
      \<or> (AsyncFunction pos \<and> NodeName node = ''funcdef'' \<and> prefix (path_of (tl pos)) p))"

definition write_ok :: "style \<Rightarrow> position \<Rightarrow> tree \<Rightarrow> path \<times> int option \<Rightarrow> bool" where
  "write_ok sty pos node w =
     (under pos node (fst w)
      \<and> (snd w \<in> spacing_values sty \<or> (snd w = None \<and> fst w \<in> set (async_keywords pos node))))"

definition children_ok ::
    "style \<Rightarrow> position \<Rightarrow> tree \<Rightarrow> nat \<Rightarrow> tree list \<Rightarrow> path \<times> int option \<Rightarrow> bool" where
  "children_ok sty pos par i cs w =
     ((\<exists>j. i \<le> j \<and> j < i + length cs \<and> under ((par, j) # pos) (cs ! (j - i)) (fst w))
      \<and> (snd w \<in> spacing_values sty
           \<or> (snd w = None \<and> fst w \<in> set (async_keywords_children pos par i cs))))"

definition extends :: "calc \<Rightarrow> calc \<Rightarrow> (path \<times> int option \<Rightarrow> bool) \<Rightarrow> bool" where
  "extends st st' P = (\<exists>ws. newlines st' = newlines st @ ws \<and> (\<forall>w\<in>set ws. P w))"

text \<open>
  The \<open>NEWLINES\<close> annotation of a tree element after the writes of a state: unset,
  or the value of the last write.
\<close>

definition required_newlines :: "calc \<Rightarrow> path \<Rightarrow> int option option" where
  "required_newlines st p = apply_writes (newlines st) Map.empty p"

text \<open>
  The value \<open>_SetBlankLinesBetweenCommentAndClassFunc\<close> writes on the keyword leaf
  \<open>kw\<close> of a node with the leading comments \<open>cms\<close>.
\<close>

definition governed_value :: "style \<Rightarrow> position \<Rightarrow> tree \<Rightarrow> tree list \<Rightarrow> leaf \<Rightarrow> calc \<Rightarrow> int \<Rightarrow> bool" where
  "governed_value sty pos node cms kw st v =
     (if glued cms kw \<or> last_comment_lineno st + 1 = lineno kw then v = NO_BLANK_LINES
      else GetNumNewlines sty st pos node = Inr v)"

text \<open>
  A tree without comment statements and without decorators; across the visit of such a
  tree the nesting levels and \<open>last_comment_lineno\<close> stay, and \<open>last_was_decorator\<close>
  does not become true (\<open>same_context\<close>).
\<close>

fun no_comments_or_decorators :: "tree \<Rightarrow> bool" where
  "no_comments_or_decorators (Leaf l) = True"
| "no_comments_or_decorators (Node nm cs) =
     (nm \<noteq> ''decorator'' \<and> \<not> is_comment_statement (Node nm cs)
      \<and> list_all no_comments_or_decorators cs)"

definition same_context :: "calc \<Rightarrow> calc \<Rightarrow> bool" where
  "same_context st st' =
     (class_level st' = class_level st \<and> function_level st' = function_level st
      \<and> last_comment_lineno st' = last_comment_lineno st
      \<and> (last_was_decorator st' \<longrightarrow> last_was_decorator st))"



section \<open>Example trees\<close>

text \<open>
  Example trees: a leaf, the statement \<open>x = rhs\<close>, a module of a two-line comment,
  an assignment of a two-line string and two more assignments, and a worklist that is not
  in line order.
\<close>

definition tok :: "string \<Rightarrow> int \<Rightarrow> int \<Rightarrow> string \<Rightarrow> tree" where
  "tok nm ln col v = Leaf (Token nm ln col v)"

definition assignment :: "int \<Rightarrow> string \<Rightarrow> tree \<Rightarrow> tree" where
  "assignment ln x rhs =
     Node ''simple_stmt''
       [Node ''expr_stmt'' [tok ''NAME'' ln 0 x, tok ''EQUAL'' ln 2 ''='', rhs],
        tok ''NEWLINE'' ln 9 [CHR 0x0A]]"

definition example_module :: tree where
  "example_module =
     Node ''file_input''
       [Node ''simple_stmt''
          [tok ''COMMENT'' 2 0 (''# c1'' @ [CHR 0x0A] @ ''# c2''), tok ''NEWLINE'' 2 4 [CHR 0x0A]],
        assignment 3 ''x'' (tok ''STRING'' 3 4 (''a'' @ [CHR 0x0A] @ ''b'')),
        assignment 5 ''y'' (tok ''NUMBER'' 5 4 ''1''),
        assignment 7 ''z'' (tok ''NUMBER'' 7 4 ''2''),
        tok ''ENDMARKER'' 8 0 []]"

definition example_recorder :: recorder where
  "example_recorder =
     \<lparr>level = 0,
      first_tokens = [([1], Token ''NAME'' 4 0 ''y''),
                      ([0], Token ''COMMENT'' 2 0 (''# c1'' @ [CHR 0x0A] @ ''# c2'')),
                      ([2], Token ''STRING'' 4 4 (''a'' @ [CHR 0x0A] @ ''b'')),
                      ([3], Token ''NAME'' 7 0 ''z'')],
      original_newlines = []\<rparr>"

text \<open>
  A module in which a two-line comment (lines 3 and 4) stands in the tree before the
  statement of line 1, an assignment of a two-line string: the tokens are not in line
  order in the tree.
\<close>

definition spliced_module :: tree where
  "spliced_module =
     Node ''file_input''
       [Node ''simple_stmt''
          [tok ''COMMENT'' 4 0 (''# c1'' @ [CHR 0x0A] @ ''# c2''), tok ''NEWLINE'' 4 4 [CHR 0x0A]],
        assignment 1 ''x'' (tok ''STRING'' 1 4 (''a'' @ [CHR 0x0A] @ ''b'')),
        assignment 6 ''y'' (tok ''NUMBER'' 6 4 ''1''),
        tok ''ENDMARKER'' 7 0 []]"

text \<open>
  The statement \<open>x = 1\<close> on line 1.
\<close>

definition same_line_statement :: tree where
  "same_line_statement = assignment 1 ''x'' (tok ''NUMBER'' 1 4 ''1'')"

text \<open>
  Example trees: the style with two blank lines around top-level definitions, the
  children of a one-line function \<open>def f(): pass\<close>, a module of two functions, a class
  with two methods, a decorated function, a function with a leading comment on the line
  before it, an async function after a function, and a decorated async function; a
  function \<open>def f():\<close> whose body is a comment and \<open>pass\<close>, a module of an
  import and two functions, the first with a comment in its body, and a class with two
  such methods.
\<close>

definition two_blank_lines :: style where
  "two_blank_lines = \<lparr>BLANK_LINES_AROUND_TOP_LEVEL_DEFINITION = 2\<rparr>"

definition func :: "int \<Rightarrow> int \<Rightarrow> string \<Rightarrow> tree list" where
  "func ln col f =
     [tok ''NAME'' ln col ''def'', tok ''NAME'' ln (col + 4) f,
      Node ''parameters'' [tok ''LPAR'' ln (col + 5) ''('', tok ''RPAR'' ln (col + 6) '')''],
      tok ''COLON'' ln (col + 7) '':'',
      Node ''simple_stmt''
        [tok ''NAME'' ln (col + 9) ''pass'', tok ''NEWLINE'' ln (col + 13) [CHR 0x0A]]]"

definition two_functions :: tree where
  "two_functions =
     Node ''file_input''
       [Node ''funcdef'' (func 1 0 ''f''), Node ''funcdef'' (func 4 0 ''g''),
        tok ''ENDMARKER'' 5 0 []]"






definition comment_statement :: "int \<Rightarrow> tree" where
  "comment_statement ln =
     Node ''simple_stmt'' [tok ''COMMENT'' ln 0 ''# about g'', tok ''NEWLINE'' ln 9 [CHR 0x0A]]"

definition commented_module :: tree where
  "commented_module =
     Node ''file_input''
       [Node ''funcdef'' (func 1 0 ''f''),
        Node ''funcdef'' (comment_statement 4 # func 5 0 ''g''),
        tok ''ENDMARKER'' 6 0 []]"

definition async_module :: tree where
  "async_module =
     Node ''file_input''
       [Node ''funcdef'' (func 1 0 ''f''),
        Node ''async_stmt'' [tok ''ASYNC'' 4 0 ''async'', Node ''funcdef'' (func 4 6 ''g'')],
        tok ''ENDMARKER'' 5 0 []]"

definition func_with_comment :: "int \<Rightarrow> int \<Rightarrow> string \<Rightarrow> tree list" where
  "func_with_comment ln col f =
     [tok ''NAME'' ln col ''def'', tok ''NAME'' ln (col + 4) f,
      Node ''parameters'' [tok ''LPAR'' ln (col + 5) ''('', tok ''RPAR'' ln (col + 6) '')''],
      tok ''COLON'' ln (col + 7) '':'',
      Node ''suite''
        [tok ''NEWLINE'' ln (col + 8) [CHR 0x0A], tok ''INDENT'' (ln + 1) 0 ''    '',
         Node ''simple_stmt''
           [tok ''COMMENT'' (ln + 1) (col + 4) ''# body'',
            tok ''NEWLINE'' (ln + 1) (col + 10) [CHR 0x0A]],
         Node ''simple_stmt''
           [tok ''NAME'' (ln + 2) (col + 4) ''pass'',
            tok ''NEWLINE'' (ln + 2) (col + 8) [CHR 0x0A]],
         tok ''DEDENT'' (ln + 3) 0 []]]"

definition import_statement :: tree where
  "import_statement =
     Node ''simple_stmt''
       [Node ''import_name'' [tok ''NAME'' 1 0 ''import'', tok ''NAME'' 1 7 ''os''],
        tok ''NEWLINE'' 1 9 [CHR 0x0A]]"

definition import_module :: tree where
  "import_module =
     Node ''file_input''
       [import_statement, Node ''funcdef'' (func_with_comment 3 0 ''f''),
        Node ''funcdef'' (func 8 0 ''g''), tok ''ENDMARKER'' 9 0 []]"

definition commented_suite :: tree where
  "commented_suite =
     Node ''suite''
       [tok ''NEWLINE'' 1 8 [CHR 0x0A], tok ''INDENT'' 2 0 ''    '',
        Node ''funcdef'' (func_with_comment 2 4 ''f''), Node ''funcdef'' (func 6 4 ''g''),
        tok ''DEDENT'' 7 0 []]"

definition commented_class :: tree where
  "commented_class =
     Node ''classdef''
       [tok ''NAME'' 1 0 ''class'', tok ''NAME'' 1 6 ''A'', tok ''COLON'' 1 7 '':'', commented_suite]"

definition commented_class_module :: tree where
  "commented_class_module = Node ''file_input'' [commented_class, tok ''ENDMARKER'' 7 0 []]"



section \<open>Pass 1: properties\<close>

lemma Orig_Visit_inner:
  "0 < level st \<Longrightarrow> Orig_Visit p t st = st\<lparr>first_tokens := first_tokens st @ tokens_of p t\<rparr>"
  "0 < level st \<Longrightarrow>
     Orig_DefaultNodeVisit p i cs st = st\<lparr>first_tokens := first_tokens st @ tokens_of_children p i cs\<rparr>"
proof (induction p t st and p i cs st rule: Orig_Visit_Orig_DefaultNodeVisit.induct)
  case (1 p l st)
  then show ?case
    by (simp add: Orig_Visit_exit_def Orig_DefaultLeafVisit_def)
next
  case (2 p nm cs st)
  then show ?case by (simp add: Orig_Visit_exit_def)
next
  case (3 p i st)
  then show ?case by simp
next
  case (4 p i c cs st)
  then show ?case by simp
qed

lemma level_update_same: "level st = k \<Longrightarrow> st\<lparr>level := k\<rparr> = st"
  by (cases st) simp

lemma first_tokens_level_update_same:
  "level st = k \<Longrightarrow> st\<lparr>first_tokens := ft, level := k\<rparr> = st\<lparr>first_tokens := ft\<rparr>"
  by (cases st) simp

lemma Orig_Visit_root:
  "level st = 0 \<Longrightarrow>
     Orig_Visit p t st = compute_newlines (st\<lparr>first_tokens := first_tokens st @ tokens_of p t\<rparr>)"
proof (cases t)
  case (Leaf l)
  assume "level st = 0"
  with Leaf show ?thesis
    by (simp add: Orig_Visit_exit_def Orig_DefaultLeafVisit_def level_update_same
        first_tokens_level_update_same)
next
  case (Node nm cs)
  assume "level st = 0"
  with Node show ?thesis
    by (simp add: Orig_Visit_exit_def Orig_Visit_inner(2) level_update_same
        first_tokens_level_update_same)
qed

lemma OriginalBlankLines_eq:
  "OriginalBlankLines t = compute_loop 1 (sort_key (\<lambda>t. lineno (snd t)) (tokens_of [] t))"
  by (simp add: OriginalBlankLines_def Orig_Visit_root recorder_init_def compute_newlines_def)

lemma spec_newlines_Cons_0:
  "spec_newlines start ((p, l) # leaves) 0 = (p, lineno l - start - spec_offset l)"
  by (simp add: spec_newlines_def spec_prev_def)

lemma spec_newlines_Cons_Suc:
  "k < length leaves \<Longrightarrow>
   spec_newlines start ((p, l) # leaves) (Suc k) = spec_newlines (spec_last_line l) leaves k"
  by (cases k) (simp_all add: spec_newlines_def spec_prev_def)

lemma compute_loop_spec:
  "compute_loop start leaves = map (spec_newlines start leaves) [0..<length leaves]"
proof (induction leaves arbitrary: start)
  case Nil
  show ?case by simp
next
  case (Cons t leaves)
  obtain p l where t: "t = (p, l)" by (cases t)
  have tl: "map (spec_newlines start ((p, l) # leaves)) (map Suc [0..<length leaves])
          = map (spec_newlines (spec_last_line l) leaves) [0..<length leaves]"
    by (simp add: spec_newlines_Cons_Suc)
  have "compute_loop start ((p, l) # leaves)
        = (p, lineno l - start - spec_offset l) # compute_loop (spec_last_line l) leaves"
    by (simp add: spec_offset_def spec_last_line_def Let_def)
  also have "\<dots> = spec_newlines start ((p, l) # leaves) 0
                 # map (spec_newlines (spec_last_line l) leaves) [0..<length leaves]"
    by (simp add: Cons.IH spec_newlines_Cons_0)
  also have "\<dots> = map (spec_newlines start ((p, l) # leaves)) [0..<length ((p, l) # leaves)]"
    using tl by (simp add: upt_conv_Cons map_Suc_upt del: upt_Suc)
  finally show ?case by (simp add: t)
qed

text \<open>
  Claim C3. Whatever worklist \<open>first_tokens\<close> pass 1 has collected,
  \<open>_compute_newlines\<close> sorts it by line number (stably) and, scanning with the cursor
  started at 1, assigns the k-th leaf of the sorted list the value
  line number - prev - offset: offset is the number of line breaks in the text of a
  COMMENT leaf and 0 otherwise, prev is 1 for the first leaf and otherwise the line of
  the preceding leaf, advanced by the line breaks in its text when it is a STRING leaf.
\<close>
theorem compute_newlines_assigns:
  "sorted (map (\<lambda>t. lineno (snd t)) (sort_key (\<lambda>t. lineno (snd t)) (first_tokens st)))
   \<and> (\<forall>n. filter (\<lambda>t. lineno (snd t) = n) (sort_key (\<lambda>t. lineno (snd t)) (first_tokens st))
          = filter (\<lambda>t. lineno (snd t) = n) (first_tokens st))
   \<and> original_newlines (compute_newlines st)
       = original_newlines st
         @ map (spec_newlines 1 (sort_key (\<lambda>t. lineno (snd t)) (first_tokens st)))
               [0..<length (first_tokens st)]"
  by (simp add: compute_newlines_def compute_loop_spec sort_key_stable)

lemma str_count_nonneg: "0 \<le> str_count s c"
  by (simp add: str_count_def)

lemma spec_first_line_le: "spec_first_line l \<le> lineno l"
  by (simp add: spec_first_line_def spec_offset_def str_count_nonneg)

lemma spec_last_line_ge: "lineno l \<le> spec_last_line l"
  by (simp add: spec_last_line_def str_count_nonneg)

lemma compute_loop_nonneg:
  "in_source_order prev leaves \<Longrightarrow> w \<in> set (compute_loop prev leaves) \<Longrightarrow> 0 \<le> snd w"
proof (induction leaves arbitrary: prev)
  case Nil
  then show ?case by simp
next
  case (Cons a leaves)
  obtain p l where a: "a = (p, l)" by (cases a)
  from Cons.prems a have first: "prev \<le> spec_first_line l"
    and rest: "in_source_order (spec_last_line l) leaves" by simp_all
  have eq: "compute_loop prev (a # leaves)
        = (p, lineno l - prev - spec_offset l) # compute_loop (spec_last_line l) leaves"
    by (simp add: a spec_offset_def spec_last_line_def Let_def)
  from Cons.prems(2) eq
  consider "w = (p, lineno l - prev - spec_offset l)"
    | "w \<in> set (compute_loop (spec_last_line l) leaves)" by auto
  then show ?case
  proof cases
    case 1
    with first show ?thesis by (simp add: spec_first_line_def)
  next
    case 2
    with rest show ?thesis by (rule Cons.IH)
  qed
qed

lemma before_in_source_lineno: "before_in_source a b \<Longrightarrow> lineno a \<le> lineno b"
  using spec_first_line_le [of b] spec_last_line_ge [of a]
  by (simp add: before_in_source_def)

text \<open>
  Inserting a token by line number into a list that is in source order keeps the source
  order, when the lines of the token are consistent with those of every token of the list.
\<close>

lemma insort_source_order:
  assumes "sorted_wrt (\<lambda>x y. before_in_source (snd x) (snd y)) zs"
    and "\<forall>z\<in>set zs. consistent_lines l (snd z)"
  shows "sorted_wrt (\<lambda>x y. before_in_source (snd x) (snd y))
           (insort_key (\<lambda>t. lineno (snd t)) (p, l) zs)"
  using assms
proof (induction zs)
  case Nil
  show ?case by simp
next
  case (Cons y ys)
  from Cons.prems(1) have ys: "sorted_wrt (\<lambda>x y. before_in_source (snd x) (snd y)) ys"
    and y_ys: "\<forall>z\<in>set ys. before_in_source (snd y) (snd z)" by simp_all
  from Cons.prems(2) have cy: "consistent_lines l (snd y)"
    and cys: "\<forall>z\<in>set ys. consistent_lines l (snd z)" by simp_all
  show ?case
  proof (cases "lineno l \<le> lineno (snd y)")
    case True
    have "before_in_source l (snd z)" if z: "z \<in> set (y # ys)" for z
    proof -
      have "lineno (snd y) \<le> lineno (snd z)"
        using z y_ys by (auto dest: before_in_source_lineno)
      with True have le: "lineno l \<le> lineno (snd z)" by simp
      from z Cons.prems(2) have c: "consistent_lines l (snd z)" by blast
      show ?thesis
      proof (cases "lineno l = lineno (snd z)")
        case True
        with c show ?thesis by (simp add: consistent_lines_def)
      next
        case False
        with le have "\<not> lineno (snd z) \<le> lineno l" by simp
        then have "\<not> before_in_source (snd z) l" by (auto dest: before_in_source_lineno)
        with c show ?thesis by (auto simp: consistent_lines_def)
      qed
    qed
    with True Cons.prems(1) show ?thesis by simp
  next
    case False
    then have "\<not> before_in_source l (snd y)" by (auto dest: before_in_source_lineno)
    with cy have yl: "before_in_source (snd y) l" by (auto simp: consistent_lines_def)
    from Cons.IH [OF ys cys]
    have "sorted_wrt (\<lambda>x y. before_in_source (snd x) (snd y))
            (insort_key (\<lambda>t. lineno (snd t)) (p, l) ys)" .
    with False yl y_ys show ?thesis by (simp add: set_insort_key)
  qed
qed

lemma sort_source_order:
  "accurate_lines leaves \<Longrightarrow>
   sorted_wrt (\<lambda>x y. before_in_source (snd x) (snd y)) (sort_key (\<lambda>t. lineno (snd t)) leaves)"
proof (induction leaves)
  case Nil
  show ?case by simp
next
  case (Cons a leaves)
  obtain p l where a: "a = (p, l)" by (cases a)
  from Cons.prems a have c: "\<forall>z\<in>set leaves. consistent_lines l (snd z)"
    and rest: "accurate_lines leaves" by (simp_all add: list_all_iff)
  from c have "\<forall>z\<in>set (sort_key (\<lambda>t. lineno (snd t)) leaves). consistent_lines l (snd z)"
    by simp
  from insort_source_order [OF Cons.IH [OF rest] this] show ?case
    by (simp add: a)
qed

lemma accurate_lines_first: "accurate_lines leaves \<Longrightarrow> t \<in> set leaves \<Longrightarrow> 1 \<le> spec_first_line (snd t)"
  by (induction leaves rule: accurate_lines.induct) auto

lemma source_order_in_source_order:
  "sorted_wrt (\<lambda>x y. before_in_source (snd x) (snd y)) zs \<Longrightarrow>
   \<forall>z\<in>set zs. prev \<le> spec_first_line (snd z) \<Longrightarrow> in_source_order prev zs"
proof (induction zs arbitrary: prev)
  case Nil
  show ?case by simp
next
  case (Cons a zs)
  obtain p l where a: "a = (p, l)" by (cases a)
  from Cons.prems(1) a have "\<forall>z\<in>set zs. spec_last_line l \<le> spec_first_line (snd z)"
    by (simp add: before_in_source_def)
  moreover from Cons.prems(1) have "sorted_wrt (\<lambda>x y. before_in_source (snd x) (snd y)) zs"
    by simp
  ultimately have "in_source_order (spec_last_line l) zs" by (intro Cons.IH)
  with Cons.prems(2) a show ?case by simp
qed

text \<open>
  Claim C4. On a tree whose line metadata is accurate (every non-layout token begins at
  line 1 or later; of two tokens one ends at or before the line where the other begins;
  tokens reported at the same line number stand in the tree in their source order; a
  comment ends at its line number and begins its embedded line breaks earlier, a string
  begins at its line number and ends its embedded line breaks later), wherever the tokens
  stand in the tree, every \<open>OriginalNewlines\<close> value that pass 1 computes is
  non-negative.
\<close>
theorem OriginalBlankLines_nonneg:
  assumes "well_formed_layout tree" and "(p, n) \<in> set (OriginalBlankLines tree)"
  shows "0 \<le> n"
proof -
  let ?leaves = "sort_key (\<lambda>t. lineno (snd t)) (tokens_of [] tree)"
  from assms(1) have acc: "accurate_lines (tokens_of [] tree)"
    by (simp add: well_formed_layout_def)
  then have "sorted_wrt (\<lambda>x y. before_in_source (snd x) (snd y)) ?leaves"
    by (rule sort_source_order)
  moreover have "\<forall>z\<in>set ?leaves. 1 \<le> spec_first_line (snd z)"
    using accurate_lines_first [OF acc] by simp
  ultimately have ord: "in_source_order 1 ?leaves" by (rule source_order_in_source_order)
  from assms(2) have "(p, n) \<in> set (compute_loop 1 ?leaves)"
    by (simp add: OriginalBlankLines_eq)
  with ord have "0 \<le> snd (p, n)" by (rule compute_loop_nonneg)
  then show ?thesis by simp
qed

lemma apply_writes_map_add: "apply_writes ws m = m ++ map_of (rev ws)"
proof (induction ws arbitrary: m)
  case Nil
  show ?case by simp
next
  case (Cons w ws)
  obtain p v where w: "w = (p, v)" by (cases w)
  have "apply_writes (w # ws) m = (m(p \<mapsto> v)) ++ map_of (rev ws)"
    by (simp add: w Cons.IH fun_upd_def)
  also have "\<dots> = m ++ map_of (rev (w # ws))"
    by (rule ext) (simp add: w map_add_def split: option.splits)
  finally show ?case .
qed

lemma apply_writes_twice: "apply_writes ws (apply_writes ws m) = apply_writes ws m"
proof -
  have "(m ++ map_of (rev ws)) ++ map_of (rev ws) = m ++ map_of (rev ws)"
    by (rule ext) (simp add: map_add_def split: option.splits)
  then show ?thesis by (simp only: apply_writes_map_add)
qed

text \<open>
  Claim C9. Running pass 1 (a fresh recorder each time) a second time on the same tree
  leaves every \<open>OriginalNewlines\<close> annotation as the first run set it.
\<close>
theorem OriginalSpacingRecorder_idempotent:
  "OriginalSpacingRecorder tree (OriginalSpacingRecorder tree store)
   = OriginalSpacingRecorder tree store"
  by (simp add: OriginalSpacingRecorder_def apply_writes_twice)

lemma example_module_tokens:
  "tokens_of [] example_module = 
    [([0, 0], Token ''COMMENT'' 2 0 (''# c1'' @ [CHR 0x0A] @ ''# c2'')),
     ([1, 0, 0], Token ''NAME'' 3 0 ''x''),
     ([1, 0, 1], Token ''EQUAL'' 3 2 ''=''),
     ([1, 0, 2], Token ''STRING'' 3 4 (''a'' @ [CHR 0x0A] @ ''b'')),
     ([2, 0, 0], Token ''NAME'' 5 0 ''y''),
     ([2, 0, 1], Token ''EQUAL'' 5 2 ''=''),
     ([2, 0, 2], Token ''NUMBER'' 5 4 ''1''),
     ([3, 0, 0], Token ''NAME'' 7 0 ''z''),
     ([3, 0, 1], Token ''EQUAL'' 7 2 ''=''),
     ([3, 0, 2], Token ''NUMBER'' 7 4 ''2''),
     ([4], Token ''ENDMARKER'' 8 0 [])]"
  by (simp add: example_module_def assignment_def tok_def)

lemma example_module_newlines:
  "OriginalBlankLines example_module =
     [([0, 0], 0), ([1, 0, 0], 1), ([1, 0, 1], 0), ([1, 0, 2], 0), ([2, 0, 0], 1),
      ([2, 0, 1], 0), ([2, 0, 2], 0), ([3, 0, 0], 2), ([3, 0, 1], 0), ([3, 0, 2], 0), ([4], 1)]"
  by (simp add: OriginalBlankLines_eq example_module_tokens str_count_def)

theorem compute_newlines_assigns_witness:
  "original_newlines (compute_newlines example_recorder) = [([0], 0), ([1], 2), ([2], 0), ([3], 2)]"
  using compute_newlines_assigns [of example_recorder]
  by (simp add: example_recorder_def spec_newlines_def spec_prev_def spec_offset_def
      spec_last_line_def str_count_def upt_conv_Cons del: upt_Suc)

lemma spliced_module_tokens:
  "tokens_of [] spliced_module =
    [([0, 0], Token ''COMMENT'' 4 0 (''# c1'' @ [CHR 0x0A] @ ''# c2'')),
     ([1, 0, 0], Token ''NAME'' 1 0 ''x''),
     ([1, 0, 1], Token ''EQUAL'' 1 2 ''=''),
     ([1, 0, 2], Token ''STRING'' 1 4 (''a'' @ [CHR 0x0A] @ ''b'')),
     ([2, 0, 0], Token ''NAME'' 6 0 ''y''),
     ([2, 0, 1], Token ''EQUAL'' 6 2 ''=''),
     ([2, 0, 2], Token ''NUMBER'' 6 4 ''1''),
     ([3], Token ''ENDMARKER'' 7 0 [])]"
  by (simp add: spliced_module_def assignment_def tok_def)

lemma spliced_module_newlines:
  "OriginalBlankLines spliced_module =
     [([1, 0, 0], 0), ([1, 0, 1], 0), ([1, 0, 2], 0), ([0, 0], 1), ([2, 0, 0], 2),
      ([2, 0, 1], 0), ([2, 0, 2], 0), ([3], 1)]"
  by (simp add: OriginalBlankLines_eq spliced_module_tokens str_count_def)

theorem OriginalBlankLines_nonneg_witness:
  "well_formed_layout spliced_module
   \<and> \<not> sorted (map (\<lambda>t. lineno (snd t)) (tokens_of [] spliced_module))
   \<and> ([0, 0], 1) \<in> set (OriginalBlankLines spliced_module)
   \<and> ([2, 0, 0], 2) \<in> set (OriginalBlankLines spliced_module)
   \<and> (0::int) \<le> 1 \<and> (0::int) \<le> 2"
proof -
  have wf: "well_formed_layout spliced_module"
    by (simp add: well_formed_layout_def spliced_module_tokens consistent_lines_def
        before_in_source_def spec_first_line_def spec_offset_def spec_last_line_def str_count_def)
  have ns: "\<not> sorted (map (\<lambda>t. lineno (snd t)) (tokens_of [] spliced_module))"
    by (simp add: spliced_module_tokens)
  have mem1: "([0, 0], 1) \<in> set (OriginalBlankLines spliced_module)"
    by (simp add: spliced_module_newlines)
  have mem2: "([2, 0, 0], 2) \<in> set (OriginalBlankLines spliced_module)"
    by (simp add: spliced_module_newlines)
  from OriginalBlankLines_nonneg [OF wf mem1] OriginalBlankLines_nonneg [OF wf mem2]
    wf ns mem1 mem2
  show ?thesis by simp
qed

theorem OriginalSpacingRecorder_idempotent_witness:
  "OriginalSpacingRecorder example_module (OriginalSpacingRecorder example_module Map.empty) [3, 0, 0]
     = Some 2
   \<and> OriginalSpacingRecorder example_module Map.empty [3, 0, 0] = Some 2"
  using OriginalSpacingRecorder_idempotent [of example_module Map.empty]
  by (simp add: OriginalSpacingRecorder_def example_module_newlines)

text \<open>
  Claim C2. The claim says that only the first leaf of a source line is put on the
  worklist and annotated. On the statement \<open>x = 1\<close>, whose three leaves are all on
  line 1, pass 1 annotates all three: the comparison in \<open>DefaultLeafVisit\<close> is between
  a bound method and an integer and never fails.
\<close>
theorem same_line_leaves_all_annotated:
  "OriginalBlankLines same_line_statement = [([0, 0], 0), ([0, 1], 0), ([0, 2], 0)]"
  by (simp add: OriginalBlankLines_eq same_line_statement_def assignment_def tok_def)

section \<open>Pass 2: properties\<close>

lemma bind_err_Inl [simp]: "bind_err (Inl e) f = Inl e"
  by (simp add: bind_err_def)

lemma bind_err_Inr [simp]: "bind_err (Inr x) f = f x"
  by (simp add: bind_err_def)

lemma bind_err_eq_Inr: "bind_err r f = Inr y \<longleftrightarrow> (\<exists>x. r = Inr x \<and> f x = Inr y)"
  by (cases r) simp_all

lemma add_writes_fields [simp]:
  "newlines (add_writes ws st) = newlines st @ ws"
  "class_level (add_writes ws st) = class_level st"
  "function_level (add_writes ws st) = function_level st"
  "last_comment_lineno (add_writes ws st) = last_comment_lineno st"
  "last_was_decorator (add_writes ws st) = last_was_decorator st"
  "last_was_class_or_function (add_writes ws st) = last_was_class_or_function st"
  by (simp_all add: add_writes_def)

lemma add_writes_Nil [simp]: "add_writes [] st = st"
  by (simp add: add_writes_def)

lemma add_writes_add_writes [simp]: "add_writes ws2 (add_writes ws1 st) = add_writes (ws1 @ ws2) st"
  by (simp add: add_writes_def)

lemma SetNumNewlines_add_writes: "SetNumNewlines p v st = add_writes [(p, v)] st"
  by (simp add: SetNumNewlines_def add_writes_def)

lemma add_writes_updates [simp]:
  "(add_writes ws st)\<lparr>last_was_class_or_function := b\<rparr>
     = add_writes ws (st\<lparr>last_was_class_or_function := b\<rparr>)"
  "(add_writes ws st)\<lparr>last_was_decorator := b\<rparr> = add_writes ws (st\<lparr>last_was_decorator := b\<rparr>)"
  "(add_writes ws st)\<lparr>class_level := k\<rparr> = add_writes ws (st\<lparr>class_level := k\<rparr>)"
  "(add_writes ws st)\<lparr>function_level := k\<rparr> = add_writes ws (st\<lparr>function_level := k\<rparr>)"
  "(add_writes ws st)\<lparr>last_comment_lineno := k\<rparr> = add_writes ws (st\<lparr>last_comment_lineno := k\<rparr>)"
  by (simp_all add: add_writes_def)

lemma GetNumNewlines_add_writes [simp]:
  "GetNumNewlines sty (add_writes ws st) pos node = GetNumNewlines sty st pos node"
  by (simp add: GetNumNewlines_def IsTopLevel_def)

lemma GetNumNewlines_flag [simp]:
  "GetNumNewlines sty (st\<lparr>last_was_class_or_function := b\<rparr>) pos node
     = GetNumNewlines sty st pos node"
  by (simp add: GetNumNewlines_def IsTopLevel_def)

lemma comment_writes_fields [simp]:
  "comment_writes p (add_writes ws st) i n = comment_writes p st i n"
  "comment_writes p (st\<lparr>last_was_class_or_function := b\<rparr>) i n = comment_writes p st i n"
  by (simp_all add: comment_writes_def)

lemma comment_writes_0 [simp]: "comment_writes p st i 0 = []"
  by (simp add: comment_writes_def)

lemma comment_writes_Suc:
  "comment_writes p st i (Suc n)
     = (if last_was_decorator st then [] else [(p @ [i, 0], Some ONE_BLANK_LINE)])
       @ comment_writes p st (Suc i) n"
  by (simp add: comment_writes_def upt_conv_Cons del: upt_Suc)

lemma is_comment_statement_Leaf [simp]: "\<not> is_comment_statement (Leaf l)"
  by (simp add: is_comment_statement_def)

lemma leading_comments_eq:
  "list_all is_comment_statement cms \<Longrightarrow> IsCommentStatement k = Inr False \<Longrightarrow>
   leading_comments p (cms @ k # rest) i st
     = Inr (i + length cms, add_writes (comment_writes p st i (length cms)) st)"
proof (induction cms arbitrary: i st)
  case Nil
  then show ?case by simp
next
  case (Cons c cms)
  from Cons.prems have cms: "list_all is_comment_statement cms" by simp
  from Cons.prems have "is_comment_statement c" by simp
  then have c: "IsCommentStatement c = Inr True" by (simp add: is_comment_statement_def)
  show ?case
    by (simp add: c Cons.IH [OF cms Cons.prems(2)] DefaultLeafVisit_def Let_def
        SetNumNewlines_add_writes comment_writes_Suc)
qed

lemma is_comment_statementE:
  assumes "is_comment_statement t"
  obtains cl tl0 where "t = Node ''simple_stmt'' (Leaf cl # tl0)" and "tok_name cl = ''COMMENT''"
proof (cases t)
  case (Leaf l)
  with assms show ?thesis by simp
next
  case (Node nm cs)
  with assms have nm: "nm = ''simple_stmt''"
    by (auto simp: is_comment_statement_def split: if_splits)
  show ?thesis
  proof (cases cs)
    case Nil
    with assms Node nm show ?thesis by (simp add: is_comment_statement_def)
  next
    case (Cons c tl0)
    show ?thesis
    proof (cases c)
      case (Leaf cl)
      with assms Node nm Cons have "tok_name cl = ''COMMENT''"
        by (simp add: is_comment_statement_def)
      with Node nm Cons Leaf that show ?thesis by simp
    next
      case (Node nm' cs')
      with assms \<open>t = Node nm cs\<close> nm Cons show ?thesis by (simp add: is_comment_statement_def)
    qed
  qed
qed

lemma glue_test:
  assumes "list_all is_comment_statement cms" and "cms \<noteq> []"
  shows "bind_err (child (Node nm (cms @ Leaf kw # rest)) (length cms - 1)) (\<lambda>cm.
         bind_err (child cm 0) (\<lambda>cl.
         bind_err (lineno_attr cl) (\<lambda>cln. Inr (lineno kw - 1 = cln))))
         = Inr (glued cms kw)"
proof -
  from assms have "is_comment_statement (last cms)" by (simp add: list_all_iff)
  then obtain cl tl0 where l: "last cms = Node ''simple_stmt'' (Leaf cl # tl0)"
    by (rule is_comment_statementE)
  from assms(2) have "(cms @ Leaf kw # rest) ! (length cms - 1) = last cms"
    by (simp add: nth_append last_conv_nth)
  with assms(2) have "child (Node nm (cms @ Leaf kw # rest)) (length cms - 1) = Inr (last cms)"
    by (simp add: child_def)
  with l assms(2) show ?thesis by (simp add: child_def glued_def)
qed

lemma SetBlank_eq:
  assumes "list_all is_comment_statement cms"
  shows "SetBlankLinesBetweenCommentAndClassFunc sty pos (Node nm (cms @ Leaf kw # rest)) st
    = (if glued cms kw \<or> last_comment_lineno st + 1 = lineno kw
       then Inr (length cms,
                 add_writes (comment_writes (path_of pos) st 0 (length cms)
                             @ [(path_of pos @ [length cms], Some NO_BLANK_LINES)]) st)
       else bind_err (GetNumNewlines sty st pos (Node nm (cms @ Leaf kw # rest))) (\<lambda>v.
              Inr (length cms,
                   add_writes (comment_writes (path_of pos) st 0 (length cms)
                               @ [(path_of pos @ [length cms], Some v)]) st)))"
proof (cases "cms = []")
  case True
  then show ?thesis
    by (simp add: SetBlankLinesBetweenCommentAndClassFunc_def child_def glued_def
        SetNumNewlines_add_writes)
next
  case False
  have lc: "leading_comments (path_of pos) (cms @ Leaf kw # rest) 0 st
        = Inr (length cms, add_writes (comment_writes (path_of pos) st 0 (length cms)) st)"
    using leading_comments_eq [OF assms, of "Leaf kw" "path_of pos" rest 0 st] by simp
  have ch: "child (Node nm (cms @ Leaf kw # rest)) (length cms) = Inr (Leaf kw)"
    by (simp add: child_def)
  from False show ?thesis
    by (simp add: SetBlankLinesBetweenCommentAndClassFunc_def lc ch glue_test [OF assms False]
        SetNumNewlines_add_writes del: One_nat_def)
qed

lemma GetNumNewlines_values:
  "GetNumNewlines sty st pos node = Inr v \<Longrightarrow> Some v \<in> spacing_values sty"
  by (auto simp: GetNumNewlines_def spacing_values_def bind_err_eq_Inr split: if_splits)

lemma leading_comments_shape:
  "leading_comments p cs i st = Inr (index, st') \<Longrightarrow>
   \<exists>cms k rest. cs = cms @ k # rest \<and> list_all is_comment_statement cms
      \<and> IsCommentStatement k = Inr False \<and> index = i + length cms"
proof (induction cs arbitrary: i st)
  case Nil
  then show ?case by simp
next
  case (Cons c cs)
  show ?case
  proof (cases "IsCommentStatement c")
    case (Inl e)
    with Cons.prems show ?thesis by simp
  next
    case (Inr b)
    show ?thesis
    proof (cases b)
      case False
      with Inr Cons.prems have "index = i" by simp
      with Inr False have "c # cs = [] @ c # cs \<and> list_all is_comment_statement []
          \<and> IsCommentStatement c = Inr False \<and> index = i + length ([]::tree list)" by simp
      then show ?thesis by blast
    next
      case True
      with Inr Cons.prems obtain st1 where "leading_comments p cs (i + 1) st1 = Inr (index, st')"
        by (simp add: Let_def)
      from Cons.IH [OF this] obtain cms k rest where
        "cs = cms @ k # rest" "list_all is_comment_statement cms"
        "IsCommentStatement k = Inr False" "index = i + 1 + length cms" by blast
      with Inr True have "c # cs = (c # cms) @ k # rest \<and> list_all is_comment_statement (c # cms)
          \<and> IsCommentStatement k = Inr False \<and> index = i + length (c # cms)"
        by (simp add: is_comment_statement_def)
      then show ?thesis by blast
    qed
  qed
qed

lemma SetBlank_shape:
  assumes "SetBlankLinesBetweenCommentAndClassFunc sty pos node st = Inr (index, st')"
  shows "\<exists>nm cms kw rest. node = Node nm (cms @ Leaf kw # rest)
           \<and> list_all is_comment_statement cms \<and> index = length cms"
proof (cases "leading_comments (path_of pos) (children node) 0 st")
  case (Inl e)
  with assms show ?thesis by (simp add: SetBlankLinesBetweenCommentAndClassFunc_def)
next
  case (Inr r)
  obtain i st1 where r: "r = (i, st1)" by (cases r)
  note lc = Inr [unfolded r]
  from leading_comments_shape [OF lc] obtain cms k rest where
    cs: "children node = cms @ k # rest" and cms: "list_all is_comment_statement cms"
    and i: "i = length cms" by auto
  from cs i have ch: "child node i = Inr k" by (simp add: child_def)
  show ?thesis
  proof (cases k)
    case (Node nm' cs')
    with assms lc ch show ?thesis by (simp add: SetBlankLinesBetweenCommentAndClassFunc_def)
  next
    case (Leaf kw)
    with assms lc ch have "index = i"
      by (auto simp: SetBlankLinesBetweenCommentAndClassFunc_def bind_err_eq_Inr
          split: if_splits)
    moreover from cs Leaf obtain nm where "node = Node nm (cms @ Leaf kw # rest)"
      by (cases node) simp_all
    ultimately show ?thesis using cms i by blast
  qed
qed

lemma comment_writes_set:
  "w \<in> set (comment_writes p st i n) \<Longrightarrow>
   snd w = Some ONE_BLANK_LINE \<and> (\<exists>j. i \<le> j \<and> j < i + n \<and> fst w = p @ [j, 0])"
  by (auto simp: comment_writes_def split: if_splits)

lemma SetBlank_writes:
  assumes "SetBlankLinesBetweenCommentAndClassFunc sty pos node st = Inr (index, st')"
  shows "\<exists>ws. st' = add_writes ws st
           \<and> (\<forall>w\<in>set ws. snd w \<in> spacing_values sty
                \<and> (\<exists>q. q \<noteq> [] \<and> fst w = path_of pos @ q))"
proof -
  from SetBlank_shape [OF assms] obtain nm cms kw rest where
    node: "node = Node nm (cms @ Leaf kw # rest)" and cms: "list_all is_comment_statement cms"
    and i: "index = length cms" by blast
  let ?cw = "comment_writes (path_of pos) st 0 (length cms)"
  from assms obtain v where st': "st' = add_writes (?cw @ [(path_of pos @ [length cms], Some v)]) st"
    and v: "Some v \<in> spacing_values sty"
    unfolding node SetBlank_eq [OF cms]
    by (auto simp: bind_err_eq_Inr spacing_values_def dest: GetNumNewlines_values split: if_splits)
  have "\<forall>w\<in>set (?cw @ [(path_of pos @ [length cms], Some v)]).
          snd w \<in> spacing_values sty \<and> (\<exists>q. q \<noteq> [] \<and> fst w = path_of pos @ q)"
  proof
    fix w assume "w \<in> set (?cw @ [(path_of pos @ [length cms], Some v)])"
    then consider "w \<in> set ?cw" | "w = (path_of pos @ [length cms], Some v)" by auto
    then show "snd w \<in> spacing_values sty \<and> (\<exists>q. q \<noteq> [] \<and> fst w = path_of pos @ q)"
    proof cases
      case 1
      from comment_writes_set [OF this] show ?thesis
        by (auto simp: spacing_values_def)
    next
      case 2
      with v show ?thesis by simp
    qed
  qed
  with st' show ?thesis by blast
qed

lemma path_of_Nil [simp]: "path_of [] = []"
  by (simp add: path_of_def)

lemma path_of_Cons [simp]: "path_of ((par, i) # pos) = path_of pos @ [i]"
  by (simp add: path_of_def)

lemma extends_same: "newlines st' = newlines st \<Longrightarrow> extends st st' P"
  by (simp add: extends_def)

lemma extends_step:
  assumes "extends st st1 P" and "extends st1 st2 Q"
    and "\<And>w. P w \<Longrightarrow> R w" and "\<And>w. Q w \<Longrightarrow> R w"
  shows "extends st st2 R"
proof -
  from assms(1) obtain ws1 where 1: "newlines st1 = newlines st @ ws1" "\<forall>w\<in>set ws1. P w"
    by (auto simp: extends_def)
  from assms(2) obtain ws2 where 2: "newlines st2 = newlines st1 @ ws2" "\<forall>w\<in>set ws2. Q w"
    by (auto simp: extends_def)
  from 1 2 have "newlines st2 = newlines st @ (ws1 @ ws2)" by simp
  moreover from 1 2 assms(3,4) have "\<forall>w\<in>set (ws1 @ ws2). R w" by auto
  ultimately show ?thesis unfolding extends_def by blast
qed

lemma extends_cong:
  "newlines a' = newlines a \<Longrightarrow> newlines b' = newlines b \<Longrightarrow> extends a b P \<Longrightarrow> extends a' b' P"
  by (simp add: extends_def)

lemma FirstLeafNode_path:
  "FirstLeafNode pos node = Inr (lpos, l) \<Longrightarrow> prefix (path_of pos) (path_of lpos)"
proof (induction pos node rule: FirstLeafNode.induct)
  case (1 pos l')
  then show ?case by simp
next
  case (2 pos nm)
  then show ?case by simp
next
  case (3 pos nm c cs)
  then have "prefix (path_of pos @ [0]) (path_of lpos)" by simp
  then show ?case by (rule append_prefixD)
qed

lemma Visit_decorator_enter_writes:
  assumes "Visit_decorator_enter sty pos node st = Inr st1"
  shows "\<exists>v. st1 = add_writes [(path_of pos @ [0], Some v)] st \<and> Some v \<in> spacing_values sty"
proof -
  from assms obtain v where st1: "st1 = add_writes [(path_of pos @ [0], Some v)] st"
    and v: "v = NO_BLANK_LINES \<or> GetNumNewlines sty st pos node = Inr v"
    by (auto simp: Visit_decorator_enter_def bind_err_eq_Inr SetNumNewlines_add_writes
        split: if_splits)
  from v have "Some v \<in> spacing_values sty"
  proof
    assume "v = NO_BLANK_LINES"
    then show ?thesis by (simp add: spacing_values_def)
  next
    assume "GetNumNewlines sty st pos node = Inr v"
    then show ?thesis by (rule GetNumNewlines_values)
  qed
  with st1 show ?thesis by blast
qed

lemma Visit_classdef_enter_writes:
  assumes "Visit_classdef_enter sty pos node st = Inr (index, st1)"
  shows "extends st st1 (\<lambda>w. snd w \<in> spacing_values sty \<and> (\<exists>q. q \<noteq> [] \<and> fst w = path_of pos @ q))"
proof -
  from assms obtain st2 where
    sb: "SetBlankLinesBetweenCommentAndClassFunc sty pos node
           (st\<lparr>last_was_class_or_function := False\<rparr>) = Inr (index, st2)"
    and st1: "newlines st1 = newlines st2"
    by (auto simp: Visit_classdef_enter_def bind_err_eq_Inr Let_def)
  from SetBlank_writes [OF sb] st1 show ?thesis
    by (auto simp: extends_def)
qed

lemma DefaultNodeVisit_enter_writes:
  assumes "DefaultNodeVisit_enter sty pos node st = Inr st1"
  shows "extends st st1 (\<lambda>w. snd w \<in> spacing_values sty \<and> prefix (path_of pos) (fst w))"
proof (cases "last_was_class_or_function st \<and> NodeName node \<in> PYTHON_STATEMENTS")
  case False
  with assms have "newlines st1 = newlines st"
    by (auto simp: DefaultNodeVisit_enter_def)
  then show ?thesis by (rule extends_same)
next
  case True
  with assms obtain lpos l n where fl: "FirstLeafNode pos node = Inr (lpos, l)"
    and n: "GetNumNewlines sty st lpos (Leaf l) = Inr n"
    and st1: "st1 = (SetNumNewlines (path_of lpos) (Some n) st)\<lparr>last_was_class_or_function := False\<rparr>"
    by (auto simp: DefaultNodeVisit_enter_def bind_err_eq_Inr)
  from st1 have "newlines st1 = newlines st @ [(path_of lpos, Some n)]"
    by (simp add: SetNumNewlines_def)
  with FirstLeafNode_path [OF fl] GetNumNewlines_values [OF n] show ?thesis
    by (auto simp: extends_def)
qed

lemma Visit_simple_stmt_exit_newlines:
  "Visit_simple_stmt_exit node st = Inr st1 \<Longrightarrow> newlines st1 = newlines st"
  by (auto simp: Visit_simple_stmt_exit_def bind_err_eq_Inr split: if_splits)

lemma Visit_funcdef_enter_writes:
  assumes "Visit_funcdef_enter sty pos (Node ''funcdef'' cs) st = Inr (index, st1)"
  shows "extends st st1 (write_ok sty pos (Node ''funcdef'' cs))"
proof -
  let ?node = "Node ''funcdef'' cs"
  let ?st0 = "st\<lparr>last_was_class_or_function := False\<rparr>"
  from assms obtain index0 st2 where
    sb1: "SetBlankLinesBetweenCommentAndClassFunc sty pos ?node ?st0 = Inr (index0, st2)"
    by (auto simp: Visit_funcdef_enter_def bind_err_eq_Inr Let_def)
  from SetBlank_writes [OF sb1] obtain ws1 where ws1: "st2 = add_writes ws1 ?st0"
    "\<forall>w\<in>set ws1. snd w \<in> spacing_values sty \<and> (\<exists>q. q \<noteq> [] \<and> fst w = path_of pos @ q)"
    by blast
  have ok1: "\<forall>w\<in>set ws1. write_ok sty pos ?node w"
    using ws1(2) by (auto simp: write_ok_def under_def)
  show ?thesis
  proof (cases "AsyncFunction pos")
    case False
    with assms sb1 obtain st4 where
      sb2: "SetBlankLinesBetweenCommentAndClassFunc sty pos ?node st2 = Inr (index, st4)"
      and st1: "newlines st1 = newlines st4"
      by (auto simp: Visit_funcdef_enter_def bind_err_eq_Inr Let_def)
    from SetBlank_writes [OF sb2] obtain ws2 where ws2: "st4 = add_writes ws2 st2"
      "\<forall>w\<in>set ws2. snd w \<in> spacing_values sty \<and> (\<exists>q. q \<noteq> [] \<and> fst w = path_of pos @ q)"
      by blast
    have ok2: "\<forall>w\<in>set ws2. write_ok sty pos ?node w"
      using ws2(2) by (auto simp: write_ok_def under_def)
    from st1 ws1(1) ws2(1) have "newlines st1 = newlines st @ (ws1 @ ws2)" by simp
    moreover from ok1 ok2 have "\<forall>w\<in>set (ws1 @ ws2). write_ok sty pos ?node w" by auto
    ultimately show ?thesis unfolding extends_def by blast
  next
    case True
    with assms sb1 obtain st3 where
      sb2: "SetBlankLinesBetweenCommentAndClassFunc sty (tl pos) (fst (hd pos)) st2
              = Inr (index, st3)"
      and st1: "newlines st1 = newlines st3 @ [(path_of pos @ [0], None)]"
      by (auto simp: Visit_funcdef_enter_def bind_err_eq_Inr Let_def SetNumNewlines_def)
    from SetBlank_writes [OF sb2] obtain ws2 where ws2: "st3 = add_writes ws2 st2"
      "\<forall>w\<in>set ws2. snd w \<in> spacing_values sty \<and> (\<exists>q. q \<noteq> [] \<and> fst w = path_of (tl pos) @ q)"
      by blast
    have ok2: "\<forall>w\<in>set ws2. write_ok sty pos ?node w"
      using ws2(2) True by (auto simp: write_ok_def under_def)
    have ok3: "write_ok sty pos ?node (path_of pos @ [0], None)"
      using True by (simp add: write_ok_def under_def)
    from st1 ws1(1) ws2(1)
    have "newlines st1 = newlines st @ (ws1 @ ws2 @ [(path_of pos @ [0], None)])" by simp
    moreover from ok1 ok2 ok3
    have "\<forall>w\<in>set (ws1 @ ws2 @ [(path_of pos @ [0], None)]). write_ok sty pos ?node w" by auto
    ultimately show ?thesis unfolding extends_def by blast
  qed
qed

lemma Visit_Node_cases:
  assumes "Visit sty pos (Node nm cs) st = Inr st'"
  obtains
    (decorator) st1 st2 where "nm = ''decorator''"
      "Visit_decorator_enter sty pos (Node nm cs) st = Inr st1"
      "Visit_children sty pos (Node nm cs) 0 cs st1 = Inr st2"
      "st' = st2\<lparr>last_was_decorator := True\<rparr>"
  | (classdef) index st1 st2 where "nm \<noteq> ''decorator''" "nm = ''classdef''"
      "Visit_classdef_enter sty pos (Node nm cs) st = Inr (index, st1)"
      "Visit_children sty pos (Node nm cs) index (drop index cs) st1 = Inr st2"
      "st' = st2\<lparr>class_level := class_level st2 - 1, last_was_class_or_function := True\<rparr>"
  | (funcdef) index st1 st2 where "nm \<noteq> ''decorator''" "nm \<noteq> ''classdef''" "nm = ''funcdef''"
      "Visit_funcdef_enter sty pos (Node nm cs) st = Inr (index, st1)"
      "Visit_children sty pos (Node nm cs) index (drop index cs) st1 = Inr st2"
      "st' = st2\<lparr>function_level := function_level st2 - 1, last_was_class_or_function := True\<rparr>"
  | (default) st1 st2 where "nm \<noteq> ''decorator''" "nm \<noteq> ''classdef''" "nm \<noteq> ''funcdef''"
      "DefaultNodeVisit_enter sty pos (Node nm cs) st = Inr st1"
      "Visit_children sty pos (Node nm cs) 0 cs st1 = Inr st2"
      "if nm = ''simple_stmt'' then Visit_simple_stmt_exit (Node nm cs) st2 = Inr st'
       else st' = st2"
proof -
  consider "nm = ''decorator''" | "nm \<noteq> ''decorator''" "nm = ''classdef''"
    | "nm \<noteq> ''decorator''" "nm \<noteq> ''classdef''" "nm = ''funcdef''"
    | "nm \<noteq> ''decorator''" "nm \<noteq> ''classdef''" "nm \<noteq> ''funcdef''" by blast
  then show thesis
  proof cases
    case 1
    with assms decorator show ?thesis
      by (auto split: sum.splits)
  next
    case 2
    with assms classdef show ?thesis
      by (auto split: sum.splits)
  next
    case 3
    with assms funcdef show ?thesis
      by (auto split: sum.splits)
  next
    case 4
    with assms default show ?thesis
      by (auto split: sum.splits if_splits)
  qed
qed

lemma Visit_children_Cons_cases:
  assumes "Visit_children sty pos par i (c # cs) st = Inr st'"
  obtains st1 where "Visit sty ((par, i) # pos) c st = Inr st1"
    "Visit_children sty pos par (Suc i) cs st1 = Inr st'"
  using assms by (auto split: sum.splits)

lemma async_keywords_children_drop:
  "set (async_keywords_children pos par (i + n) (drop n cs))
     \<subseteq> set (async_keywords_children pos par i cs)"
proof (induction cs arbitrary: i n)
  case Nil
  show ?case by simp
next
  case (Cons c cs)
  show ?case
  proof (cases n)
    case 0
    then show ?thesis by simp
  next
    case (Suc m)
    have "set (async_keywords_children pos par (Suc i + m) (drop m cs))
            \<subseteq> set (async_keywords_children pos par (Suc i) cs)" by (rule Cons.IH)
    with Suc show ?thesis by auto
  qed
qed

lemma under_child:
  "under ((Node nm cs, j) # pos) c p \<Longrightarrow> under pos (Node nm cs) p"
  by (auto simp: under_def dest: append_prefixD)

lemma children_ok_node:
  assumes "children_ok sty pos (Node nm cs) index (drop index cs) w"
  shows "write_ok sty pos (Node nm cs) w"
proof -
  from assms have "under pos (Node nm cs) (fst w)"
    by (auto simp: children_ok_def dest: under_child)
  moreover have "set (async_keywords_children pos (Node nm cs) index (drop index cs))
      \<subseteq> set (async_keywords pos (Node nm cs))"
    using async_keywords_children_drop [of pos "Node nm cs" 0 index cs] by auto
  ultimately show ?thesis using assms
    by (auto simp: children_ok_def write_ok_def)
qed

lemma children_ok_hd:
  assumes "write_ok sty ((par, i) # pos) c w"
  shows "children_ok sty pos par i (c # cs) w"
proof -
  from assms have "i \<le> i \<and> i < i + length (c # cs)
      \<and> under ((par, i) # pos) ((c # cs) ! (i - i)) (fst w)"
    by (simp add: write_ok_def)
  then have "\<exists>j. i \<le> j \<and> j < i + length (c # cs)
      \<and> under ((par, j) # pos) ((c # cs) ! (j - i)) (fst w)" by blast
  with assms show ?thesis by (auto simp: children_ok_def write_ok_def)
qed

lemma children_ok_tl:
  assumes "children_ok sty pos par (Suc i) cs w"
  shows "children_ok sty pos par i (c # cs) w"
proof -
  from assms obtain j where j: "Suc i \<le> j" "j < Suc i + length cs"
    "under ((par, j) # pos) (cs ! (j - Suc i)) (fst w)"
    by (auto simp: children_ok_def)
  from j(1) have "(c # cs) ! (j - i) = cs ! (j - Suc i)"
    by (simp add: Suc_diff_le)
  with j have "i \<le> j \<and> j < i + length (c # cs)
      \<and> under ((par, j) # pos) ((c # cs) ! (j - i)) (fst w)" by simp
  then have "\<exists>j. i \<le> j \<and> j < i + length (c # cs)
      \<and> under ((par, j) # pos) ((c # cs) ! (j - i)) (fst w)" by blast
  with assms show ?thesis by (auto simp: children_ok_def)
qed

lemma extends_mono: "extends st st' P \<Longrightarrow> (\<And>w. P w \<Longrightarrow> Q w) \<Longrightarrow> extends st st' Q"
  by (auto simp: extends_def)

lemma below_write_ok:
  "snd w \<in> spacing_values sty \<Longrightarrow> prefix (path_of pos) (fst w) \<Longrightarrow> write_ok sty pos node w"
  by (simp add: write_ok_def under_def)

lemma Visit_writes:
  "Visit sty pos node st = Inr st' \<Longrightarrow> extends st st' (write_ok sty pos node)"
  "Visit_children sty pos par i cs st = Inr st'' \<Longrightarrow>
     extends st st'' (children_ok sty pos par i cs)"
proof (induction sty pos node st and sty pos par i cs st
    arbitrary: st' and st'' rule: Visit_Visit_children.induct)
  case (1 sty pos l st)
  then show ?case by (simp add: DefaultLeafVisit_def extends_same)
next
  case (2 sty pos nm cs st)
  from "2.prems" show ?case
  proof (cases rule: Visit_Node_cases)
    case (decorator st1 st2)
    from Visit_decorator_enter_writes [OF decorator(2)]
    have e: "extends st st1 (write_ok sty pos (Node nm cs))"
      by (auto simp: extends_def write_ok_def under_def)
    from "2.IH"(1) [OF decorator(1,2,3)]
    have "extends st1 st2 (children_ok sty pos (Node nm cs) 0 cs)" .
    with e have "extends st st2 (write_ok sty pos (Node nm cs))"
      by (rule extends_step) (auto intro: children_ok_node [where index = 0, simplified])
    with decorator(4) show ?thesis by (simp add: extends_def)
  next
    case (classdef index st1 st2)
    have e: "extends st st1 (write_ok sty pos (Node nm cs))"
      by (rule extends_mono [OF Visit_classdef_enter_writes [OF classdef(3)]])
        (auto intro: below_write_ok)
    from "2.IH"(2) [OF classdef(1,2,3) refl classdef(4)]
    have "extends st1 st2 (children_ok sty pos (Node nm cs) index (drop index cs))" .
    with e have "extends st st2 (write_ok sty pos (Node nm cs))"
      by (rule extends_step) (auto intro: children_ok_node)
    with classdef(5) show ?thesis by (simp add: extends_def)
  next
    case (funcdef index st1 st2)
    from Visit_funcdef_enter_writes [of sty pos cs st index st1] funcdef(3,4)
    have e: "extends st st1 (write_ok sty pos (Node nm cs))" by simp
    from "2.IH"(3) [OF funcdef(1,2,3,4) refl funcdef(5)]
    have "extends st1 st2 (children_ok sty pos (Node nm cs) index (drop index cs))" .
    with e have "extends st st2 (write_ok sty pos (Node nm cs))"
      by (rule extends_step) (auto intro: children_ok_node)
    with funcdef(6) show ?thesis by (simp add: extends_def)
  next
    case (default st1 st2)
    have e: "extends st st1 (write_ok sty pos (Node nm cs))"
      by (rule extends_mono [OF DefaultNodeVisit_enter_writes [OF default(4)]])
        (auto intro: below_write_ok)
    from "2.IH"(4) [OF default(1,2,3,4,5)]
    have "extends st1 st2 (children_ok sty pos (Node nm cs) 0 cs)" .
    with e have "extends st st2 (write_ok sty pos (Node nm cs))"
      by (rule extends_step) (auto intro: children_ok_node [where index = 0, simplified])
    moreover from default(6) have "newlines st' = newlines st2"
      by (auto dest: Visit_simple_stmt_exit_newlines split: if_splits)
    ultimately show ?thesis by (simp add: extends_def)
  qed
next
  case (3 sty pos par i st)
  then show ?case by (simp add: extends_same)
next
  case (4 sty pos par i c cs st)
  from "4.prems" obtain st1 where v: "Visit sty ((par, i) # pos) c st = Inr st1"
    and vc: "Visit_children sty pos par (Suc i) cs st1 = Inr st''"
    by (rule Visit_children_Cons_cases)
  from "4.IH"(1) [OF v] have "extends st st1 (write_ok sty ((par, i) # pos) c)" .
  moreover from "4.IH"(2) [OF v vc]
  have "extends st1 st'' (children_ok sty pos par (Suc i) cs)" .
  ultimately show ?case
    by (rule extends_step) (auto intro: children_ok_hd children_ok_tl)
qed

lemma apply_writes_append: "apply_writes (a @ b) m = apply_writes b (apply_writes a m)"
  by (induction a arbitrary: m) auto

lemma apply_writes_other: "p \<notin> fst ` set ws \<Longrightarrow> apply_writes ws m p = m p"
  by (induction ws arbitrary: m) auto

lemma apply_writes_same:
  "(p, v) \<in> set ws \<Longrightarrow> (\<forall>w\<in>set ws. fst w = p \<longrightarrow> snd w = v) \<Longrightarrow> apply_writes ws m p = Some v"
proof (induction ws arbitrary: m)
  case Nil
  then show ?case by simp
next
  case (Cons w ws)
  obtain q u where w: "w = (q, u)" by (cases w)
  show ?case
  proof (cases "(p, v) \<in> set ws")
    case True
    with Cons.prems(2) have "apply_writes ws (m(q \<mapsto> u)) p = Some v"
      by (intro Cons.IH) auto
    with w show ?thesis by simp
  next
    case False
    with Cons.prems(1) w have qu: "q = p" "u = v" by auto
    show ?thesis
    proof (cases "p \<in> fst ` set ws")
      case True
      then obtain v' where "(p, v') \<in> set ws" by auto
      with Cons.prems(2) have "(p, v) \<in> set ws" by fastforce
      with False show ?thesis by simp
    next
      case False
      then have "apply_writes ws (m(q \<mapsto> u)) p = (m(q \<mapsto> u)) p" by (rule apply_writes_other)
      with w qu show ?thesis by simp
    qed
  qed
qed

lemma no_async_children_frame:
  assumes vc: "Visit_children sty pos par i cs st = Inr st'"
    and na: "''ASYNC'' \<notin> NodeName ` set (children par)"
    and len: "i + length cs \<le> length (children par)"
  shows "extends st st' (\<lambda>w. \<exists>j\<ge>i. prefix (path_of pos @ [j]) (fst w))"
proof (rule extends_mono [OF Visit_writes(2) [OF vc]])
  fix w assume "children_ok sty pos par i cs w"
  then obtain j where j: "i \<le> j" "j < i + length cs"
    and u: "under ((par, j) # pos) (cs ! (j - i)) (fst w)"
    by (auto simp: children_ok_def)
  have "\<not> AsyncFunction ((par, j) # pos)"
  proof
    assume "AsyncFunction ((par, j) # pos)"
    then have "j \<noteq> 0" and "NodeName (children par ! (j - 1)) = ''ASYNC''"
      by (auto simp: AsyncFunction_def split: if_splits)
    moreover from j len have "j - 1 < length (children par)" by simp
    ultimately have "''ASYNC'' \<in> NodeName ` set (children par)"
      by (metis imageI nth_mem)
    with na show False by simp
  qed
  with u have "prefix (path_of pos @ [j]) (fst w)" by (simp add: under_def)
  with j(1) show "\<exists>j\<ge>i. prefix (path_of pos @ [j]) (fst w)" by blast
qed

lemma prefix_index_neq:
  "prefix (p @ [j]) q \<Longrightarrow> j \<noteq> k \<Longrightarrow> q \<noteq> p @ k # r"
  by (auto simp: prefix_def)

lemma SetBlank_result:
  assumes cms: "list_all is_comment_statement cms"
    and sb: "SetBlankLinesBetweenCommentAndClassFunc sty pos (Node nm (cms @ Leaf kw # rest)) st
               = Inr (index, st1)"
  shows "\<exists>v. governed_value sty pos (Node nm (cms @ Leaf kw # rest)) cms kw st v
           \<and> index = length cms
           \<and> st1 = add_writes (comment_writes (path_of pos) st 0 (length cms)
                               @ [(path_of pos @ [length cms], Some v)]) st"
  using sb unfolding SetBlank_eq [OF cms] governed_value_def
  by (auto simp: bind_err_eq_Inr split: if_splits)

lemma governed_value_cong:
  "last_comment_lineno st' = last_comment_lineno st \<Longrightarrow>
   GetNumNewlines sty st' pos node = GetNumNewlines sty st pos node \<Longrightarrow>
   governed_value sty pos node cms kw st' v = governed_value sty pos node cms kw st v"
  by (simp add: governed_value_def)

lemma governed_value_unique:
  "governed_value sty pos node cms kw st v \<Longrightarrow> governed_value sty pos node cms kw st v' \<Longrightarrow> v' = v"
  by (auto simp: governed_value_def split: if_splits)

lemma definition_enter:
  assumes kind: "nm = ''classdef'' \<or> nm = ''funcdef'' \<and> \<not> AsyncFunction pos"
    and cms: "list_all is_comment_statement cms"
    and en: "(if nm = ''classdef'' then Visit_classdef_enter sty pos (Node nm (cms @ Leaf kw # rest)) st
             else Visit_funcdef_enter sty pos (Node nm (cms @ Leaf kw # rest)) st) = Inr (index, st1)"
  shows "\<exists>v W. governed_value sty pos (Node nm (cms @ Leaf kw # rest)) cms kw st v
           \<and> index = length cms
           \<and> newlines st1 = newlines st @ W
           \<and> set W = set (comment_writes (path_of pos) st 0 (length cms)
                          @ [(path_of pos @ [length cms], Some v)])"
proof -
  let ?node = "Node nm (cms @ Leaf kw # rest)"
  let ?st0 = "st\<lparr>last_was_class_or_function := False\<rparr>"
  let ?W = "\<lambda>v. comment_writes (path_of pos) st 0 (length cms)
                 @ [(path_of pos @ [length cms], Some v)]"
  have gv: "\<And>ws v. governed_value sty pos ?node cms kw (add_writes ws ?st0) v
                  = governed_value sty pos ?node cms kw st v"
    by (rule governed_value_cong) simp_all
  show ?thesis
  proof (cases "nm = ''classdef''")
    case True
    with en obtain st2 where
      sb: "SetBlankLinesBetweenCommentAndClassFunc sty pos ?node ?st0 = Inr (index, st2)"
      and st1: "newlines st1 = newlines st2"
      by (auto simp: Visit_classdef_enter_def bind_err_eq_Inr Let_def)
    from SetBlank_result [OF cms sb] obtain v where
      "governed_value sty pos ?node cms kw ?st0 v" "index = length cms"
      "st2 = add_writes (?W v) ?st0" by auto
    with st1 gv [of "[]" v] have "governed_value sty pos ?node cms kw st v \<and> index = length cms
        \<and> newlines st1 = newlines st @ ?W v \<and> set (?W v) = set (?W v)" by simp
    then show ?thesis by blast
  next
    case False
    with kind have nm: "nm = ''funcdef''" and na: "\<not> AsyncFunction pos" by auto
    from en False na obtain index0 st2 st4 where
      sb1: "SetBlankLinesBetweenCommentAndClassFunc sty pos ?node ?st0 = Inr (index0, st2)"
      and sb2: "SetBlankLinesBetweenCommentAndClassFunc sty pos ?node st2 = Inr (index, st4)"
      and st1: "newlines st1 = newlines st4"
      by (auto simp: Visit_funcdef_enter_def bind_err_eq_Inr Let_def)
    from SetBlank_result [OF cms sb1] obtain v where
      v: "governed_value sty pos ?node cms kw ?st0 v"
      and st2: "st2 = add_writes (?W v) ?st0" by auto
    from SetBlank_result [OF cms sb2] obtain v' where
      v': "governed_value sty pos ?node cms kw st2 v'" and i: "index = length cms"
      and st4: "st4 = add_writes (comment_writes (path_of pos) st2 0 (length cms)
                               @ [(path_of pos @ [length cms], Some v')]) st2" by auto
    from v gv [of "[]" v] have gvv: "governed_value sty pos ?node cms kw st v" by simp
    from v' st2 gv [of "?W v" v'] have "governed_value sty pos ?node cms kw st v'" by simp
    with gvv have "v' = v" by (rule governed_value_unique)
    with st4 st2 have "newlines st4 = newlines st @ (?W v @ ?W v)" by simp
    with st1 gvv i have "governed_value sty pos ?node cms kw st v \<and> index = length cms
        \<and> newlines st1 = newlines st @ (?W v @ ?W v) \<and> set (?W v @ ?W v) = set (?W v)" by simp
    then show ?thesis by blast
  qed
qed

lemma definition_log:
  assumes kind: "nm = ''classdef'' \<or> nm = ''funcdef'' \<and> \<not> AsyncFunction pos"
    and cms: "list_all is_comment_statement cms"
    and na: "''ASYNC'' \<notin> NodeName ` set (cms @ Leaf kw # rest)"
    and v: "Visit sty pos (Node nm (cms @ Leaf kw # rest)) st = Inr st'"
  shows "\<exists>v W ws. governed_value sty pos (Node nm (cms @ Leaf kw # rest)) cms kw st v
           \<and> newlines st' = newlines st @ W @ ws
           \<and> set W = set (comment_writes (path_of pos) st 0 (length cms)
                          @ [(path_of pos @ [length cms], Some v)])
           \<and> (\<forall>w\<in>set ws. \<exists>j>length cms. prefix (path_of pos @ [j]) (fst w))"
proof -
  let ?cs = "cms @ Leaf kw # rest"
  let ?node = "Node nm ?cs"
  from kind have nd: "nm \<noteq> ''decorator''" by auto
  from v kind obtain index st1 st2 where
    en: "(if nm = ''classdef'' then Visit_classdef_enter sty pos ?node st
          else Visit_funcdef_enter sty pos ?node st) = Inr (index, st1)"
    and vc: "Visit_children sty pos ?node index (drop index ?cs) st1 = Inr st2"
    and st': "newlines st' = newlines st2"
    by (cases rule: Visit_Node_cases) auto
  from definition_enter [OF kind cms en] obtain v W where
    gv: "governed_value sty pos ?node cms kw st v" and i: "index = length cms"
    and st1: "newlines st1 = newlines st @ W"
    and W: "set W = set (comment_writes (path_of pos) st 0 (length cms)
                          @ [(path_of pos @ [length cms], Some v)])" by blast
  from vc i have "Visit_children sty pos ?node (Suc (length cms)) rest st1 = Inr st2"
    by (simp add: DefaultLeafVisit_def)
  from no_async_children_frame [OF this] na
  have "extends st1 st2 (\<lambda>w. \<exists>j\<ge>Suc (length cms). prefix (path_of pos @ [j]) (fst w))"
    by simp
  then obtain ws where ws: "newlines st2 = newlines st1 @ ws"
    "\<forall>w\<in>set ws. \<exists>j\<ge>Suc (length cms). prefix (path_of pos @ [j]) (fst w)"
    by (auto simp: extends_def)
  from ws(2) have "\<forall>w\<in>set ws. \<exists>j>length cms. prefix (path_of pos @ [j]) (fst w)"
    by (auto simp: Suc_le_eq)
  with gv st' st1 ws(1) W show ?thesis by auto
qed

lemma definition_annotations:
  assumes kind: "nm = ''classdef'' \<or> nm = ''funcdef'' \<and> \<not> AsyncFunction pos"
    and cms: "list_all is_comment_statement cms"
    and na: "''ASYNC'' \<notin> NodeName ` set (cms @ Leaf kw # rest)"
    and v: "Visit sty pos (Node nm (cms @ Leaf kw # rest)) st = Inr st'"
  shows "\<exists>v. governed_value sty pos (Node nm (cms @ Leaf kw # rest)) cms kw st v
           \<and> required_newlines st' (path_of pos @ [length cms]) = Some (Some v)
           \<and> (\<not> last_was_decorator st \<longrightarrow>
                (\<forall>i<length cms. required_newlines st' (path_of pos @ [i, 0])
                                 = Some (Some ONE_BLANK_LINE)))"
proof -
  let ?p = "path_of pos" and ?n = "length cms"
  from definition_log [OF kind cms na v] obtain v W ws where
    gv: "governed_value sty pos (Node nm (cms @ Leaf kw # rest)) cms kw st v"
    and log: "newlines st' = newlines st @ W @ ws"
    and W: "set W = set (comment_writes ?p st 0 ?n @ [(?p @ [?n], Some v)])"
    and ws: "\<forall>w\<in>set ws. \<exists>j>?n. prefix (?p @ [j]) (fst w)" by blast
  let ?m = "apply_writes (newlines st) Map.empty"
  have look: "\<And>q. q \<notin> fst ` set ws \<Longrightarrow> required_newlines st' q = apply_writes W ?m q"
    by (simp add: required_newlines_def log apply_writes_append apply_writes_other)
  have g_notin: "?p @ [?n] \<notin> fst ` set ws"
  proof
    assume "?p @ [?n] \<in> fst ` set ws"
    then obtain w where "w \<in> set ws" "fst w = ?p @ [?n]" by auto
    with ws obtain j where "j > ?n" "prefix (?p @ [j]) (?p @ [?n])" by force
    then show False by (auto simp: prefix_def)
  qed
  have "apply_writes W ?m (?p @ [?n]) = Some (Some v)"
  proof (rule apply_writes_same)
    show "(?p @ [?n], Some v) \<in> set W" using W by simp
    show "\<forall>w\<in>set W. fst w = ?p @ [?n] \<longrightarrow> snd w = Some v"
      using W by (auto dest: comment_writes_set)
  qed
  with look [OF g_notin] have g: "required_newlines st' (?p @ [?n]) = Some (Some v)" by simp
  have c: "required_newlines st' (?p @ [i, 0]) = Some (Some ONE_BLANK_LINE)"
    if nd: "\<not> last_was_decorator st" and i: "i < ?n" for i
  proof -
    have c_notin: "?p @ [i, 0] \<notin> fst ` set ws"
    proof
      assume "?p @ [i, 0] \<in> fst ` set ws"
      then obtain w where "w \<in> set ws" "fst w = ?p @ [i, 0]" by auto
      with ws obtain j where "j > ?n" "prefix (?p @ [j]) (?p @ [i, 0])" by force
      with i show False by (auto simp: prefix_def)
    qed
    have "apply_writes W ?m (?p @ [i, 0]) = Some (Some ONE_BLANK_LINE)"
    proof (rule apply_writes_same)
      from nd i have "(?p @ [i, 0], Some ONE_BLANK_LINE) \<in> set (comment_writes ?p st 0 ?n)"
        by (simp add: comment_writes_def)
      with W show "(?p @ [i, 0], Some ONE_BLANK_LINE) \<in> set W" by simp
      show "\<forall>w\<in>set W. fst w = ?p @ [i, 0] \<longrightarrow> snd w = Some ONE_BLANK_LINE"
        using W by (auto dest: comment_writes_set)
    qed
    with look [OF c_notin] show ?thesis by simp
  qed
  from gv g c show ?thesis by blast
qed

lemma same_context_refl: "same_context st st"
  by (simp add: same_context_def)

lemma same_context_trans: "same_context a b \<Longrightarrow> same_context b c \<Longrightarrow> same_context a c"
  by (simp add: same_context_def)

lemma Visit_classdef_enter_context:
  assumes "Visit_classdef_enter sty pos node st = Inr (index, st1)"
  shows "class_level st1 = class_level st + 1 \<and> function_level st1 = function_level st
         \<and> last_comment_lineno st1 = last_comment_lineno st \<and> \<not> last_was_decorator st1"
proof -
  from assms obtain st2 where
    sb: "SetBlankLinesBetweenCommentAndClassFunc sty pos node
           (st\<lparr>last_was_class_or_function := False\<rparr>) = Inr (index, st2)"
    and st1: "st1 = st2\<lparr>last_was_decorator := False, class_level := class_level st2 + 1\<rparr>"
    by (auto simp: Visit_classdef_enter_def bind_err_eq_Inr Let_def)
  from SetBlank_writes [OF sb] obtain ws where
    "st2 = add_writes ws (st\<lparr>last_was_class_or_function := False\<rparr>)" by blast
  with st1 show ?thesis by simp
qed

lemma Visit_funcdef_enter_context:
  assumes "Visit_funcdef_enter sty pos node st = Inr (index, st1)"
  shows "class_level st1 = class_level st \<and> function_level st1 = function_level st + 1
         \<and> last_comment_lineno st1 = last_comment_lineno st \<and> \<not> last_was_decorator st1"
proof -
  let ?st0 = "st\<lparr>last_was_class_or_function := False\<rparr>"
  from assms obtain index0 st2 where
    sb1: "SetBlankLinesBetweenCommentAndClassFunc sty pos node ?st0 = Inr (index0, st2)"
    by (auto simp: Visit_funcdef_enter_def bind_err_eq_Inr Let_def)
  from SetBlank_writes [OF sb1] obtain ws1 where st2: "st2 = add_writes ws1 ?st0" by blast
  show ?thesis
  proof (cases "AsyncFunction pos")
    case False
    with assms sb1 obtain st4 where
      sb2: "SetBlankLinesBetweenCommentAndClassFunc sty pos node st2 = Inr (index, st4)"
      and st1: "st1 = st4\<lparr>last_was_decorator := False, function_level := function_level st4 + 1\<rparr>"
      by (auto simp: Visit_funcdef_enter_def bind_err_eq_Inr Let_def)
    from SetBlank_writes [OF sb2] obtain ws2 where "st4 = add_writes ws2 st2" by blast
    with st1 st2 show ?thesis by simp
  next
    case True
    with assms sb1 obtain st3 where
      sb2: "SetBlankLinesBetweenCommentAndClassFunc sty (tl pos) (fst (hd pos)) st2
              = Inr (index, st3)"
      and st1: "st1 = (SetNumNewlines (path_of pos @ [0]) None st3)
                  \<lparr>last_was_decorator := False, function_level := function_level st3 + 1\<rparr>"
      by (auto simp: Visit_funcdef_enter_def bind_err_eq_Inr Let_def SetNumNewlines_def)
    from SetBlank_writes [OF sb2] obtain ws2 where "st3 = add_writes ws2 st2" by blast
    with st1 st2 show ?thesis by (simp add: SetNumNewlines_add_writes)
  qed
qed

lemma DefaultNodeVisit_enter_context:
  assumes "DefaultNodeVisit_enter sty pos node st = Inr st1"
  shows "same_context st st1"
  using assms
  by (auto simp: DefaultNodeVisit_enter_def bind_err_eq_Inr same_context_def
      SetNumNewlines_add_writes split: if_splits)

lemma Visit_simple_stmt_exit_context:
  assumes "Visit_simple_stmt_exit (Node nm cs) st = Inr st1"
    and "\<not> is_comment_statement (Node nm cs)" and "nm = ''simple_stmt''"
  shows "st1 = st"
proof (cases cs)
  case Nil
  with assms show ?thesis by (simp add: Visit_simple_stmt_exit_def child_def)
next
  case (Cons c cs')
  show ?thesis
  proof (cases c)
    case (Leaf l)
    with assms Cons show ?thesis
      by (auto simp: Visit_simple_stmt_exit_def child_def is_comment_statement_def
          split: if_splits)
  next
    case (Node nm' cs'')
    with assms Cons show ?thesis
      by (auto simp: Visit_simple_stmt_exit_def child_def split: if_splits)
  qed
qed

lemma Visit_context:
  "Visit sty pos node st = Inr st' \<Longrightarrow> no_comments_or_decorators node \<Longrightarrow> same_context st st'"
  "Visit_children sty pos par i cs st = Inr st'' \<Longrightarrow> list_all no_comments_or_decorators cs \<Longrightarrow>
     same_context st st''"
proof (induction sty pos node st and sty pos par i cs st
    arbitrary: st' and st'' rule: Visit_Visit_children.induct)
  case (1 sty pos l st)
  then show ?case by (simp add: DefaultLeafVisit_def same_context_refl)
next
  case (2 sty pos nm cs st)
  from "2.prems"(2) have cs: "list_all no_comments_or_decorators cs"
    and nd: "nm \<noteq> ''decorator''" and nc: "\<not> is_comment_statement (Node nm cs)" by simp_all
  have dcs: "list_all no_comments_or_decorators (drop k cs)" for k
    using cs by (auto simp: list_all_iff dest: in_set_dropD)
  from "2.prems"(1) show ?case
  proof (cases rule: Visit_Node_cases)
    case (decorator st1 st2)
    with nd show ?thesis by simp
  next
    case (classdef index st1 st2)
    from "2.IH"(2) [OF classdef(1,2,3) refl classdef(4) dcs]
    have "same_context st1 st2" .
    with Visit_classdef_enter_context [OF classdef(3)] classdef(5) show ?thesis
      by (simp add: same_context_def)
  next
    case (funcdef index st1 st2)
    from "2.IH"(3) [OF funcdef(1,2,3,4) refl funcdef(5) dcs]
    have "same_context st1 st2" .
    with Visit_funcdef_enter_context [OF funcdef(4)] funcdef(6) show ?thesis
      by (simp add: same_context_def)
  next
    case (default st1 st2)
    from "2.IH"(4) [OF default(1,2,3,4,5) cs]
    have "same_context st1 st2" .
    with DefaultNodeVisit_enter_context [OF default(4)]
    have "same_context st st2" by (rule same_context_trans)
    moreover from default(6) nc have "st' = st2"
      by (auto dest: Visit_simple_stmt_exit_context split: if_splits)
    ultimately show ?thesis by simp
  qed
next
  case (3 sty pos par i st)
  then show ?case by (simp add: same_context_refl)
next
  case (4 sty pos par i c cs st)
  from "4.prems"(1) obtain st1 where v: "Visit sty ((par, i) # pos) c st = Inr st1"
    and vc: "Visit_children sty pos par (Suc i) cs st1 = Inr st''"
    by (rule Visit_children_Cons_cases)
  from "4.prems"(2) have c: "no_comments_or_decorators c"
    and cs: "list_all no_comments_or_decorators cs" by simp_all
  from "4.IH"(1) [OF v c] "4.IH"(2) [OF v vc cs] show ?case
    by (rule same_context_trans)
qed

lemma required_newlines_frame:
  assumes "extends st st' P" and "\<And>w. P w \<Longrightarrow> fst w \<noteq> q"
  shows "required_newlines st' q = required_newlines st q"
proof -
  from assms(1) obtain ws where ws: "newlines st' = newlines st @ ws" "\<forall>w\<in>set ws. P w"
    by (auto simp: extends_def)
  with assms(2) have "q \<notin> fst ` set ws" by auto
  with ws(1) show ?thesis
    by (simp add: required_newlines_def apply_writes_append apply_writes_other)
qed

lemma GetNumNewlines_context:
  assumes "last_was_decorator st' = last_was_decorator st"
    and "class_level st' = class_level st" and "function_level st' = function_level st"
  shows "GetNumNewlines sty st' pos node = GetNumNewlines sty st pos node"
  using assms by (simp add: GetNumNewlines_def IsTopLevel_def)

lemma Visit_simple_stmt_exit_levels:
  "Visit_simple_stmt_exit node st = Inr st1 \<Longrightarrow>
   class_level st1 = class_level st \<and> function_level st1 = function_level st"
  by (auto simp: Visit_simple_stmt_exit_def bind_err_eq_Inr split: if_splits)

text \<open>
  A visit that ends normally leaves the nesting levels as they were.
\<close>

lemma Visit_levels:
  "Visit sty pos node st = Inr st' \<Longrightarrow>
     class_level st' = class_level st \<and> function_level st' = function_level st"
  "Visit_children sty pos par i cs st = Inr st'' \<Longrightarrow>
     class_level st'' = class_level st \<and> function_level st'' = function_level st"
proof (induction sty pos node st and sty pos par i cs st
    arbitrary: st' and st'' rule: Visit_Visit_children.induct)
  case (1 sty pos l st)
  then show ?case by (simp add: DefaultLeafVisit_def)
next
  case (2 sty pos nm cs st)
  from "2.prems" show ?case
  proof (cases rule: Visit_Node_cases)
    case (decorator st1 st2)
    from Visit_decorator_enter_writes [OF decorator(2)]
    have "class_level st1 = class_level st \<and> function_level st1 = function_level st" by auto
    with "2.IH"(1) [OF decorator(1,2,3)] decorator(4) show ?thesis by simp
  next
    case (classdef index st1 st2)
    from "2.IH"(2) [OF classdef(1,2,3) refl classdef(4)]
      Visit_classdef_enter_context [OF classdef(3)] classdef(5)
    show ?thesis by simp
  next
    case (funcdef index st1 st2)
    from "2.IH"(3) [OF funcdef(1,2,3,4) refl funcdef(5)]
      Visit_funcdef_enter_context [OF funcdef(4)] funcdef(6)
    show ?thesis by simp
  next
    case (default st1 st2)
    from DefaultNodeVisit_enter_context [OF default(4)]
    have "class_level st1 = class_level st \<and> function_level st1 = function_level st"
      by (simp add: same_context_def)
    with "2.IH"(4) [OF default(1,2,3,4,5)]
    have "class_level st2 = class_level st \<and> function_level st2 = function_level st" by simp
    with default(6) show ?thesis
      by (auto dest: Visit_simple_stmt_exit_levels split: if_splits)
  qed
next
  case (3 sty pos par i st)
  then show ?case by simp
next
  case (4 sty pos par i c cs st)
  from "4.prems" obtain st1 where v: "Visit sty ((par, i) # pos) c st = Inr st1"
    and vc: "Visit_children sty pos par (Suc i) cs st1 = Inr st''"
    by (rule Visit_children_Cons_cases)
  from "4.IH"(1) [OF v] "4.IH"(2) [OF v vc] show ?case by simp
qed

text \<open>
  The visit of a list of children is the visit of a first part followed by the visit of
  the rest.
\<close>

lemma Visit_children_append:
  "Visit_children sty pos par i (xs @ ys) st
     = (case Visit_children sty pos par i xs st of
          Inl e \<Rightarrow> Inl e
        | Inr st1 \<Rightarrow> Visit_children sty pos par (i + length xs) ys st1)"
proof (induction xs arbitrary: i st)
  case Nil
  show ?case by simp
next
  case (Cons x xs)
  show ?case
  proof (cases "Visit sty ((par, i) # pos) x st")
    case (Inl e)
    then show ?thesis by simp
  next
    case (Inr st1)
    have n: "Suc i + length xs = i + length (x # xs)" by simp
    show ?thesis
    proof (cases "Visit_children sty pos par (Suc i) xs st1")
      case (Inl e)
      with Inr Cons.IH [of "Suc i" st1] show ?thesis by simp
    next
      case (Inr st2)
      with \<open>Visit sty ((par, i) # pos) x st = Inr st1\<close> Cons.IH [of "Suc i" st1] n
      show ?thesis by simp
    qed
  qed
qed

lemma children_frame:
  assumes vc: "Visit_children sty pos par i cs st = Inr st'"
    and na: "\<forall>j. i \<le> j \<and> j < i + length cs \<longrightarrow> \<not> AsyncFunction ((par, j) # pos)"
  shows "extends st st' (\<lambda>w. \<exists>j\<ge>i. prefix (path_of pos @ [j]) (fst w))"
proof (rule extends_mono [OF Visit_writes(2) [OF vc]])
  fix w assume "children_ok sty pos par i cs w"
  then obtain j where j: "i \<le> j" "j < i + length cs"
    and u: "under ((par, j) # pos) (cs ! (j - i)) (fst w)"
    by (auto simp: children_ok_def)
  from na j have "\<not> AsyncFunction ((par, j) # pos)" by blast
  with u have "prefix (path_of pos @ [j]) (fst w)" by (simp add: under_def)
  with j(1) show "\<exists>j\<ge>i. prefix (path_of pos @ [j]) (fst w)" by blast
qed

text \<open>
  The later siblings of a definition are not async function definitions when no
  \<open>ASYNC\<close> token stands among them.
\<close>

lemma later_siblings_not_async:
  assumes par: "children par = pre @ Node nm cs # others" "length pre = j"
    and nm: "nm \<noteq> ''ASYNC''"
    and na: "''ASYNC'' \<notin> NodeName ` set others"
  shows "\<forall>k. Suc j \<le> k \<and> k < Suc j + length others \<longrightarrow> \<not> AsyncFunction ((par, k) # pos)"
proof (intro allI impI)
  fix k assume k: "Suc j \<le> k \<and> k < Suc j + length others"
  show "\<not> AsyncFunction ((par, k) # pos)"
  proof (cases "k = Suc j")
    case True
    with par have "children par ! (k - 1) = Node nm cs" by (simp add: nth_append)
    with True nm show ?thesis by (simp add: AsyncFunction_def)
  next
    case False
    with k obtain m where m: "k = Suc (Suc (j + m))" and ml: "m < length others"
      by (metis Suc_le_D add_Suc_right add_Suc less_iff_Suc_add nat_less_le not_less_eq_eq
          add_less_cancel_left le_neq_implies_less Suc_le_eq less_Suc_eq_le nat_le_iff_add)
    have "(pre @ Node nm cs # others) ! (length pre + Suc m) = (Node nm cs # others) ! Suc m"
      by (rule nth_append_length_plus)
    with par m have "children par ! (k - 1) = others ! m" by simp
    with ml have "children par ! (k - 1) \<in> set others" by simp
    with na have "NodeName (children par ! (k - 1)) \<noteq> ''ASYNC''" by (metis imageI)
    with m show ?thesis by (simp add: AsyncFunction_def)
  qed
qed

text \<open>
  A class or function definition reached among the children of a node, with leading
  comment statements \<open>cms\<close> and the keyword leaf \<open>kw\<close>: after the children are
  visited, the annotation of the keyword leaf is the value that
  \<open>_SetBlankLinesBetweenCommentAndClassFunc\<close> computes in the state in which the
  definition is reached.
\<close>

lemma definition_reached:
  assumes vc: "Visit_children sty pos par j (Node nm (cms @ Leaf kw # rest) # others) st1 = Inr st'"
    and par: "children par = pre @ Node nm (cms @ Leaf kw # rest) # others" "length pre = j"
    and kind: "nm = ''classdef'' \<or> nm = ''funcdef''"
    and nasync: "\<not> AsyncFunction ((par, j) # pos)"
    and cms: "list_all is_comment_statement cms"
    and na1: "''ASYNC'' \<notin> NodeName ` set others"
    and na2: "''ASYNC'' \<notin> NodeName ` set (cms @ Leaf kw # rest)"
  shows "\<exists>v. governed_value sty ((par, j) # pos) (Node nm (cms @ Leaf kw # rest)) cms kw st1 v
           \<and> required_newlines st' (path_of pos @ [j, length cms]) = Some (Some v)"
proof -
  let ?f2 = "Node nm (cms @ Leaf kw # rest)" and ?pos2 = "(par, j) # pos"
  from vc obtain st2 where v2: "Visit sty ?pos2 ?f2 st1 = Inr st2"
    and vc2: "Visit_children sty pos par (Suc j) others st2 = Inr st'"
    by (rule Visit_children_Cons_cases)
  from kind nasync have kind2: "nm = ''classdef'' \<or> nm = ''funcdef'' \<and> \<not> AsyncFunction ?pos2"
    by blast
  from definition_annotations [OF kind2 cms na2 v2]
  obtain v where gv: "governed_value sty ?pos2 ?f2 cms kw st1 v"
    and rn: "required_newlines st2 (path_of ?pos2 @ [length cms]) = Some (Some v)" by auto
  from kind have "nm \<noteq> ''ASYNC''" by auto
  from children_frame [OF vc2 later_siblings_not_async [OF par this na1]]
  have "extends st2 st' (\<lambda>w. \<exists>k\<ge>Suc j. prefix (path_of pos @ [k]) (fst w))" .
  then have "required_newlines st' (path_of pos @ [j, length cms])
      = required_newlines st2 (path_of pos @ [j, length cms])"
    by (rule required_newlines_frame) (auto simp: prefix_def)
  with rn gv show ?thesis by auto
qed

text \<open>
  Claim C5. Two consecutive function definitions among the children of the root of the
  tree, wherever they stand among them and whatever the first holds, the second with its
  keyword leaf in column 0. \<open>st1\<close> is the state in which the calculator reaches the
  second definition: no decorator came last, and the last comment statement seen is not on
  the line before the keyword. Then the annotation the run leaves on the keyword leaf of
  the second definition is 1 + \<open>BLANK_LINES_AROUND_TOP_LEVEL_DEFINITION\<close>, which is 3
  when the option is 2. In general \<open>_GetNumNewlines\<close> returns
  1 + \<open>BLANK_LINES_AROUND_TOP_LEVEL_DEFINITION\<close> for every top-level node reached with
  \<open>last_was_decorator\<close> false.
\<close>
theorem top_level_function_spacing:
  assumes run: "RequiredBlankLines sty
                  (Node rnm (pre @ Node ''funcdef'' cs1 # Node ''funcdef'' (Leaf kw # rest) # others))
                  = Inr ws"
    and root: "rnm \<notin> {''decorator'', ''classdef'', ''funcdef''}"
    and reach: "Visit_children sty []
                  (Node rnm (pre @ Node ''funcdef'' cs1 # Node ''funcdef'' (Leaf kw # rest) # others))
                  0 (pre @ [Node ''funcdef'' cs1]) calc_init = Inr st1"
    and nd: "\<not> last_was_decorator st1"
    and nc: "last_comment_lineno st1 + 1 \<noteq> lineno kw"
    and col: "column kw = 0"
    and na1: "''ASYNC'' \<notin> NodeName ` set others"
    and na2: "''ASYNC'' \<notin> NodeName ` set (Leaf kw # rest)"
  shows "apply_writes ws Map.empty [Suc (length pre), 0]
           = Some (Some (1 + BLANK_LINES_AROUND_TOP_LEVEL_DEFINITION sty))
         \<and> (BLANK_LINES_AROUND_TOP_LEVEL_DEFINITION sty = 2 \<longrightarrow>
              apply_writes ws Map.empty [Suc (length pre), 0] = Some (Some 3))
         \<and> (\<forall>st pos node. \<not> last_was_decorator st \<and> IsTopLevel st pos node = Inr True \<longrightarrow>
              GetNumNewlines sty st pos node
                = Inr (1 + BLANK_LINES_AROUND_TOP_LEVEL_DEFINITION sty))"
proof -
  let ?f1 = "Node ''funcdef'' cs1" and ?f2 = "Node ''funcdef'' (Leaf kw # rest)"
  let ?cs = "pre @ ?f1 # ?f2 # others"
  let ?m = "Node rnm ?cs"
  let ?pos2 = "[(?m, Suc (length pre))]"
  from run obtain st' where v: "Visit sty [] ?m calc_init = Inr st'" and ws: "ws = newlines st'"
    by (cases "Visit sty [] ?m calc_init") (simp_all add: RequiredBlankLines_def del: Visit.simps)
  have en: "DefaultNodeVisit_enter sty [] ?m calc_init = Inr calc_init"
    by (simp add: DefaultNodeVisit_enter_def calc_init_def)
  from root have r3: "rnm \<noteq> ''decorator''" "rnm \<noteq> ''classdef''" "rnm \<noteq> ''funcdef''"
    by simp_all
  from v obtain st0 st2 where en0: "DefaultNodeVisit_enter sty [] ?m calc_init = Inr st0"
    and vc0: "Visit_children sty [] ?m 0 ?cs st0 = Inr st2"
    and ex: "if rnm = ''simple_stmt'' then Visit_simple_stmt_exit ?m st2 = Inr st'
             else st' = st2"
    using r3 by (cases rule: Visit_Node_cases) simp_all
  from en0 en have "st0 = calc_init" by simp
  with vc0 have vc: "Visit_children sty [] ?m 0 ?cs calc_init = Inr st2" by simp
  have st2: "newlines st' = newlines st2"
  proof (cases "rnm = ''simple_stmt''")
    case True
    with ex have "Visit_simple_stmt_exit ?m st2 = Inr st'" by simp
    then show ?thesis by (rule Visit_simple_stmt_exit_newlines)
  next
    case False
    with ex show ?thesis by simp
  qed
  have "Visit_children sty [] ?m 0 ((pre @ [?f1]) @ ?f2 # others) calc_init
          = Visit_children sty [] ?m (0 + length (pre @ [?f1])) (?f2 # others) st1"
    using Visit_children_append [of sty "[]" ?m 0 "pre @ [?f1]" "?f2 # others" calc_init] reach
    by (simp only: sum.case)
  moreover have "(pre @ [?f1]) @ ?f2 # others = ?cs" by simp
  ultimately have vc2:
    "Visit_children sty [] ?m (Suc (length pre)) (?f2 # others) st1 = Inr st2"
    using vc by (simp del: Visit.simps Visit_children.simps)
  have par: "children ?m = (pre @ [?f1]) @ Node ''funcdef'' ([] @ Leaf kw # rest) # others"
    "length (pre @ [?f1]) = Suc (length pre)" by simp_all
  have nasync: "\<not> AsyncFunction ?pos2"
    by (simp add: AsyncFunction_def nth_append)
  from vc2 have vc2': "Visit_children sty [] ?m (Suc (length pre))
      (Node ''funcdef'' ([] @ Leaf kw # rest) # others) st1 = Inr st2"
    by (simp del: Visit.simps Visit_children.simps)
  from na2 have na2': "''ASYNC'' \<notin> NodeName ` set ([] @ Leaf kw # rest)" by simp
  from definition_reached [OF vc2' par _ _ _ na1 na2'] nasync
  obtain n where gv: "governed_value sty ?pos2 ?f2 [] kw st1 n"
    and rn: "required_newlines st2 [Suc (length pre), 0] = Some (Some n)" by auto
  from Visit_levels(2) [OF reach]
  have lv: "class_level st1 = 0" "function_level st1 = 0" by (simp_all add: calc_init_def)
  from gv nc have "GetNumNewlines sty st1 ?pos2 ?f2 = Inr n"
    by (simp add: governed_value_def glued_def)
  moreover have "GetNumNewlines sty st1 ?pos2 ?f2
      = Inr (1 + BLANK_LINES_AROUND_TOP_LEVEL_DEFINITION sty)"
    using col nd lv by (simp add: GetNumNewlines_def IsTopLevel_def StartsInZerothColumn_def)
  ultimately have "n = 1 + BLANK_LINES_AROUND_TOP_LEVEL_DEFINITION sty" by simp
  with rn st2 have "apply_writes ws Map.empty [Suc (length pre), 0]
           = Some (Some (1 + BLANK_LINES_AROUND_TOP_LEVEL_DEFINITION sty))"
    by (simp add: required_newlines_def ws)
  moreover have "\<forall>st pos node. \<not> last_was_decorator st \<and> IsTopLevel st pos node = Inr True \<longrightarrow>
              GetNumNewlines sty st pos node
                = Inr (1 + BLANK_LINES_AROUND_TOP_LEVEL_DEFINITION sty)"
    by (simp add: GetNumNewlines_def)
  ultimately show ?thesis by simp
qed

text \<open>
  Claim C8. Two consecutive function definitions among the children of a class body,
  reached with \<open>class_level\<close> positive, whatever the first holds. \<open>st1\<close> is the
  state in which the calculator reaches the second definition: no decorator came last, and
  no comment is on the line before the keyword (neither the last comment statement seen
  nor the last leading comment of the definition). Then the annotation left on the keyword
  leaf of the second definition is 2, for every style (the option
  \<open>BLANK_LINES_AROUND_TOP_LEVEL_DEFINITION\<close> does not occur in the result).
\<close>
theorem nested_definition_spacing:
  assumes vc: "Visit_children sty pos body i
                 (Node ''funcdef'' cs1 # Node ''funcdef'' (cms @ Leaf kw # rest) # others) st = Inr st'"
    and body: "children body
                 = pre @ Node ''funcdef'' cs1 # Node ''funcdef'' (cms @ Leaf kw # rest) # others"
      "length pre = i"
    and depth: "0 < class_level st"
    and reach: "Visit sty ((body, i) # pos) (Node ''funcdef'' cs1) st = Inr st1"
    and nd: "\<not> last_was_decorator st1"
    and nc: "last_comment_lineno st1 + 1 \<noteq> lineno kw"
    and cms: "list_all is_comment_statement cms"
    and ng: "\<not> glued cms kw"
    and na1: "''ASYNC'' \<notin> NodeName ` set others"
    and na2: "''ASYNC'' \<notin> NodeName ` set (cms @ Leaf kw # rest)"
  shows "required_newlines st' (path_of pos @ [Suc i, length cms]) = Some (Some 2)"
proof -
  let ?f1 = "Node ''funcdef'' cs1" and ?f2 = "Node ''funcdef'' (cms @ Leaf kw # rest)"
  let ?pos2 = "(body, Suc i) # pos"
  from vc obtain st1' where "Visit sty ((body, i) # pos) ?f1 st = Inr st1'"
    and "Visit_children sty pos body (Suc i) (?f2 # others) st1' = Inr st'"
    by (rule Visit_children_Cons_cases)
  with reach have vc2: "Visit_children sty pos body (Suc i) (?f2 # others) st1 = Inr st'"
    by simp
  from body have par: "children body = (pre @ [?f1]) @ ?f2 # others"
    "length (pre @ [?f1]) = Suc i" by simp_all
  from body have nasync: "\<not> AsyncFunction ?pos2"
    by (simp add: AsyncFunction_def nth_append)
  from definition_reached [OF vc2 par _ nasync cms na1 na2]
  obtain n where gv: "governed_value sty ?pos2 ?f2 cms kw st1 n"
    and rn: "required_newlines st' (path_of pos @ [Suc i, length cms]) = Some (Some n)" by auto
  from Visit_levels(1) [OF reach] depth have "0 < class_level st1" by simp
  with gv nc ng nd have "n = 2"
    by (simp add: governed_value_def GetNumNewlines_def IsTopLevel_def ONE_BLANK_LINE_def)
  with rn show ?thesis by simp
qed







text \<open>
  Claim C7. A definition node whose children are leading comment statements followed by
  the keyword leaf, the last comment on the line just before the keyword:
  \<open>_SetBlankLinesBetweenCommentAndClassFunc\<close> writes 2 on every leading comment leaf
  unless \<open>last_was_decorator\<close> is true, and then 1 on the keyword leaf. After the
  complete visit of a class definition or of a (non-async) function definition these
  are the annotations of the keyword leaf and of the comment leaves.
\<close>
theorem comment_glue:
  assumes cms: "list_all is_comment_statement cms"
    and last: "last cms = Node cnm (Leaf cl # crest)" and ne: "cms \<noteq> []"
    and adj: "lineno cl = lineno kw - 1"
  shows "SetBlankLinesBetweenCommentAndClassFunc sty pos (Node nm (cms @ Leaf kw # rest)) st
           = Inr (length cms,
                  add_writes ((if last_was_decorator st then []
                               else map (\<lambda>i. (path_of pos @ [i, 0], Some 2)) [0..<length cms])
                              @ [(path_of pos @ [length cms], Some 1)]) st)
         \<and> ((nm = ''classdef'' \<or> nm = ''funcdef'' \<and> \<not> AsyncFunction pos)
              \<and> ''ASYNC'' \<notin> NodeName ` set (cms @ Leaf kw # rest)
              \<and> Visit sty pos (Node nm (cms @ Leaf kw # rest)) st = Inr st'
            \<longrightarrow> required_newlines st' (path_of pos @ [length cms]) = Some (Some 1)
                \<and> (\<not> last_was_decorator st \<longrightarrow>
                     (\<forall>i<length cms. required_newlines st' (path_of pos @ [i, 0])
                                      = Some (Some 2))))"
proof -
  let ?node = "Node nm (cms @ Leaf kw # rest)"
  from last ne adj have g: "glued cms kw" by (simp add: glued_def)
  have sb: "SetBlankLinesBetweenCommentAndClassFunc sty pos ?node st
           = Inr (length cms,
                  add_writes ((if last_was_decorator st then []
                               else map (\<lambda>i. (path_of pos @ [i, 0], Some 2)) [0..<length cms])
                              @ [(path_of pos @ [length cms], Some 1)]) st)"
    using g by (simp add: SetBlank_eq [OF cms] comment_writes_def NO_BLANK_LINES_def
        ONE_BLANK_LINE_def)
  have fin: "required_newlines st' (path_of pos @ [length cms]) = Some (Some 1)
                \<and> (\<not> last_was_decorator st \<longrightarrow>
                     (\<forall>i<length cms. required_newlines st' (path_of pos @ [i, 0])
                                      = Some (Some 2)))"
    if kind: "nm = ''classdef'' \<or> nm = ''funcdef'' \<and> \<not> AsyncFunction pos"
      and na: "''ASYNC'' \<notin> NodeName ` set (cms @ Leaf kw # rest)"
      and v: "Visit sty pos ?node st = Inr st'"
  proof -
    from definition_annotations [OF kind cms na v] obtain n where
      gv: "governed_value sty pos ?node cms kw st n"
      and rn: "required_newlines st' (path_of pos @ [length cms]) = Some (Some n)"
      and cm: "\<not> last_was_decorator st \<longrightarrow>
                (\<forall>i<length cms. required_newlines st' (path_of pos @ [i, 0])
                                 = Some (Some ONE_BLANK_LINE))" by blast
    from gv g have "n = 1" by (simp add: governed_value_def NO_BLANK_LINES_def)
    with rn cm show ?thesis by (simp add: ONE_BLANK_LINE_def)
  qed
  from sb fin show ?thesis by blast
qed

text \<open>
  Claim C10. Every value the calculator writes in a run is \<open>None\<close>, and then it is
  written on the first child of a function definition whose previous sibling is the
  \<open>ASYNC\<close> token, or one of 1, 2 and 1 + \<open>BLANK_LINES_AROUND_TOP_LEVEL_DEFINITION\<close>;
  with a non-negative option every integer written is at least 1.
\<close>
theorem written_values:
  assumes run: "RequiredBlankLines sty tree = Inr ws" and w: "(p, v) \<in> set ws"
  shows "((v = None \<and> p \<in> set (async_keywords [] tree))
          \<or> v = Some 1 \<or> v = Some 2
          \<or> v = Some (1 + BLANK_LINES_AROUND_TOP_LEVEL_DEFINITION sty))
         \<and> (0 \<le> BLANK_LINES_AROUND_TOP_LEVEL_DEFINITION sty \<longrightarrow> (\<forall>k. v = Some k \<longrightarrow> 1 \<le> k))"
proof -
  from run obtain st' where v: "Visit sty [] tree calc_init = Inr st'" and ws: "ws = newlines st'"
    by (auto simp: RequiredBlankLines_def split: sum.splits)
  from Visit_writes(1) [OF v] ws have "\<forall>w\<in>set ws. write_ok sty [] tree w"
    by (simp add: extends_def calc_init_def)
  with w have "write_ok sty [] tree (p, v)" by blast
  then have 1: "(v = None \<and> p \<in> set (async_keywords [] tree))
          \<or> v = Some 1 \<or> v = Some 2
          \<or> v = Some (1 + BLANK_LINES_AROUND_TOP_LEVEL_DEFINITION sty)"
    by (auto simp: write_ok_def spacing_values_def NO_BLANK_LINES_def ONE_BLANK_LINE_def)
  then have "0 \<le> BLANK_LINES_AROUND_TOP_LEVEL_DEFINITION sty \<longrightarrow> (\<forall>k. v = Some k \<longrightarrow> 1 \<le> k)"
    by auto
  with 1 show ?thesis by blast
qed






lemma two_functions_writes:
  "RequiredBlankLines two_blank_lines two_functions
     = Inr [([0, 0], Some 1), ([0, 0], Some 1), ([1, 0], Some 3), ([1, 0], Some 3)]"
  by code_simp

text \<open>
  The repeated call in \<open>Visit_funcdef\<close>: the function calls
  \<open>_SetBlankLinesBetweenCommentAndClassFunc\<close> before its \<open>if\<close> and again in the
  \<open>else\<close> branch. On a module of two one-line functions the \<open>NEWLINES\<close> writes of
  the run go, in order, to the \<open>def\<close> leaf of the first function twice and to the
  \<open>def\<close> leaf of the second twice.
\<close>
theorem funcdef_governed_leaf_written_twice:
  "map_sum id (map fst) (RequiredBlankLines two_blank_lines two_functions)
     = Inr [[0, 0], [0, 0], [1, 0], [1, 0]]"
  by (simp add: two_functions_writes)




lemma import_module_writes:
  "RequiredBlankLines two_blank_lines import_module
     = Inr [([1, 0], Some 3), ([1, 0], Some 3), ([2, 0], Some 3), ([2, 0], Some 3)]"
  by code_simp

theorem top_level_function_spacing_witness:
  "RequiredBlankLines two_blank_lines import_module
     = Inr [([1, 0], Some 3), ([1, 0], Some 3), ([2, 0], Some 3), ([2, 0], Some 3)]
   \<and> Visit_children two_blank_lines [] import_module 0
         [import_statement, Node ''funcdef'' (func_with_comment 3 0 ''f'')] calc_init
       = Inr \<lparr>class_level = 0, function_level = 0, last_comment_lineno = 4,
              last_was_decorator = False, last_was_class_or_function = True,
              newlines = [([1, 0], Some 3), ([1, 0], Some 3)]\<rparr>
   \<and> apply_writes [([1, 0], Some 3), ([1, 0], Some 3), ([2, 0], Some 3), ([2, 0], Some 3)]
        Map.empty [2, 0] = Some (Some (3::int))"
proof -
  let ?ws = "[([1, 0], Some 3), ([1, 0], Some 3), ([2, 0], Some 3), ([2, 0], Some (3::int))]"
  let ?st1 = "\<lparr>class_level = 0, function_level = 0, last_comment_lineno = 4,
              last_was_decorator = False, last_was_class_or_function = True,
              newlines = [([1, 0], Some 3), ([1, 0], Some (3::int))]\<rparr>"
  let ?kw = "Token ''NAME'' 8 0 ''def''"
  let ?f1 = "Node ''funcdef'' (func_with_comment 3 0 ''f'')"
  let ?m = "Node ''file_input''
              ([import_statement] @ ?f1 # Node ''funcdef'' (Leaf ?kw # tl (func 8 0 ''g''))
               # [tok ''ENDMARKER'' 9 0 []])"
  have m: "?m = import_module"
    by (simp add: import_module_def func_def tok_def)
  have run: "RequiredBlankLines two_blank_lines ?m = Inr ?ws"
    unfolding m by (rule import_module_writes)
  have reach0: "Visit_children two_blank_lines [] import_module 0
                  [import_statement, ?f1] calc_init = Inr ?st1"
    by code_simp
  then have reach: "Visit_children two_blank_lines [] ?m 0 ([import_statement] @ [?f1]) calc_init
                      = Inr ?st1"
    unfolding m by (simp del: Visit.simps Visit_children.simps)
  have na1: "''ASYNC'' \<notin> NodeName ` set [tok ''ENDMARKER'' 9 0 []]"
    by (simp add: tok_def)
  have na2: "''ASYNC'' \<notin> NodeName ` set (Leaf ?kw # tl (func 8 0 ''g''))"
    by (simp add: func_def tok_def)
  from top_level_function_spacing [OF run _ reach _ _ _ na1 na2]
  have "apply_writes ?ws Map.empty [2, 0] = Some (Some (3::int))"
    by (simp add: two_blank_lines_def)
  with import_module_writes reach0 show ?thesis by (intro conjI)
qed

theorem nested_definition_spacing_witness:
  "Visit_children two_blank_lines [(commented_class, 3), (commented_class_module, 0)]
     commented_suite 2
     [Node ''funcdef'' (func_with_comment 2 4 ''f''), Node ''funcdef'' (func 6 4 ''g''),
      tok ''DEDENT'' 7 0 []]
     \<lparr>class_level = 1, function_level = 0, last_comment_lineno = 0, last_was_decorator = False,
      last_was_class_or_function = False, newlines = [([0, 0], Some 1)]\<rparr>
   = Inr \<lparr>class_level = 1, function_level = 0, last_comment_lineno = 3,
          last_was_decorator = False, last_was_class_or_function = True,
          newlines = [([0, 0], Some 1), ([0, 3, 2, 0], Some 2), ([0, 3, 2, 0], Some 2),
                      ([0, 3, 3, 0], Some 2), ([0, 3, 3, 0], Some 2)]\<rparr>
   \<and> required_newlines
        \<lparr>class_level = 1, function_level = 0, last_comment_lineno = 3,
         last_was_decorator = False, last_was_class_or_function = True,
         newlines = [([0, 0], Some 1), ([0, 3, 2, 0], Some 2), ([0, 3, 2, 0], Some 2),
                     ([0, 3, 3, 0], Some 2), ([0, 3, 3, 0], Some 2)]\<rparr>
        [0, 3, 3, 0] = Some (Some 2)"
proof -
  let ?st = "\<lparr>class_level = 1, function_level = 0, last_comment_lineno = 0,
      last_was_decorator = False, last_was_class_or_function = False,
      newlines = [([0, 0], Some (1::int))]\<rparr>"
  let ?st1 = "\<lparr>class_level = 1, function_level = 0, last_comment_lineno = 3,
          last_was_decorator = False, last_was_class_or_function = True,
          newlines = [([0, 0], Some 1), ([0, 3, 2, 0], Some 2), ([0, 3, 2, 0], Some (2::int))]\<rparr>"
  let ?st' = "\<lparr>class_level = 1, function_level = 0, last_comment_lineno = 3,
          last_was_decorator = False, last_was_class_or_function = True,
          newlines = [([0, 0], Some 1), ([0, 3, 2, 0], Some 2), ([0, 3, 2, 0], Some 2),
                      ([0, 3, 3, 0], Some 2), ([0, 3, 3, 0], Some (2::int))]\<rparr>"
  let ?pos = "[(commented_class, 3), (commented_class_module, 0)]"
  let ?kw = "Token ''NAME'' 6 4 ''def''"
  let ?f1 = "Node ''funcdef'' (func_with_comment 2 4 ''f'')"
  let ?f2 = "Node ''funcdef'' ([] @ Leaf ?kw # tl (func 6 4 ''g''))"
  have f2: "?f2 = Node ''funcdef'' (func 6 4 ''g'')" by (simp add: func_def tok_def)
  have vc0: "Visit_children two_blank_lines ?pos commented_suite 2
     [?f1, Node ''funcdef'' (func 6 4 ''g''), tok ''DEDENT'' 7 0 []] ?st = Inr ?st'"
    by code_simp
  have vc: "Visit_children two_blank_lines ?pos commented_suite 2
     (?f1 # ?f2 # [tok ''DEDENT'' 7 0 []]) ?st = Inr ?st'"
    unfolding f2 by (rule vc0)
  have body: "children commented_suite
      = [tok ''NEWLINE'' 1 8 [CHR 0x0A], tok ''INDENT'' 2 0 ''    '']
        @ ?f1 # ?f2 # [tok ''DEDENT'' 7 0 []]"
    unfolding f2 by (simp add: commented_suite_def)
  have len: "length [tok ''NEWLINE'' 1 8 [CHR 0x0A], tok ''INDENT'' 2 0 ''    ''] = 2" by simp
  have reach: "Visit two_blank_lines ((commented_suite, 2) # ?pos) ?f1 ?st = Inr ?st1"
    by code_simp
  have cms: "list_all is_comment_statement []" by simp
  have ng: "\<not> glued [] ?kw" by (simp add: glued_def)
  have na1: "''ASYNC'' \<notin> NodeName ` set [tok ''DEDENT'' 7 0 []]"
    by (simp add: tok_def)
  have na2: "''ASYNC'' \<notin> NodeName ` set ([] @ Leaf ?kw # tl (func 6 4 ''g''))"
    by (simp add: func_def tok_def)
  from nested_definition_spacing [OF vc body len _ reach _ _ cms ng na1 na2]
  have "required_newlines ?st' [0, 3, 3, 0] = Some (Some 2)"
    by (simp add: path_of_def)
  with vc0 show ?thesis by (intro conjI)
qed


theorem comment_glue_witness:
  "SetBlankLinesBetweenCommentAndClassFunc two_blank_lines [(commented_module, 1)]
     (Node ''funcdef'' (comment_statement 4 # func 5 0 ''g''))
     \<lparr>class_level = 0, function_level = 0, last_comment_lineno = 0, last_was_decorator = False,
      last_was_class_or_function = True, newlines = [([0, 0], Some 1), ([0, 0], Some 1)]\<rparr>
   = Inr (1, \<lparr>class_level = 0, function_level = 0, last_comment_lineno = 0,
              last_was_decorator = False, last_was_class_or_function = True,
              newlines = [([0, 0], Some 1), ([0, 0], Some 1),
                          ([1, 0, 0], Some 2), ([1, 1], Some 1)]\<rparr>)
   \<and> required_newlines
        \<lparr>class_level = 0, function_level = 0, last_comment_lineno = 0,
         last_was_decorator = False, last_was_class_or_function = True,
         newlines = [([0, 0], Some 1), ([0, 0], Some 1), ([1, 0, 0], Some 2), ([1, 1], Some 1),
                     ([1, 0, 0], Some 2), ([1, 1], Some 1)]\<rparr> [1, 1] = Some (Some 1)
   \<and> required_newlines
        \<lparr>class_level = 0, function_level = 0, last_comment_lineno = 0,
         last_was_decorator = False, last_was_class_or_function = True,
         newlines = [([0, 0], Some 1), ([0, 0], Some 1), ([1, 0, 0], Some 2), ([1, 1], Some 1),
                     ([1, 0, 0], Some 2), ([1, 1], Some 1)]\<rparr> [1, 0, 0] = Some (Some 2)"
proof -
  let ?st = "\<lparr>class_level = 0, function_level = 0, last_comment_lineno = 0,
      last_was_decorator = False, last_was_class_or_function = True,
      newlines = [([0, 0], Some 1), ([0, 0], Some (1::int))]\<rparr>"
  let ?st' = "\<lparr>class_level = 0, function_level = 0, last_comment_lineno = 0,
         last_was_decorator = False, last_was_class_or_function = True,
         newlines = [([0, 0], Some 1), ([0, 0], Some 1), ([1, 0, 0], Some 2), ([1, 1], Some 1),
                     ([1, 0, 0], Some 2), ([1, 1], Some (1::int))]\<rparr>"
  let ?pos = "[(commented_module, 1)]"
  let ?cl = "Token ''COMMENT'' 4 0 ''# about g''"
  let ?kw = "Token ''NAME'' 5 0 ''def''"
  let ?rest = "tl (func 5 0 ''g'')"
  have cms: "list_all is_comment_statement [comment_statement 4]"
    by (simp add: comment_statement_def tok_def is_comment_statement_def)
  have last: "last [comment_statement 4]
      = Node ''simple_stmt'' (Leaf ?cl # [tok ''NEWLINE'' 4 9 [CHR 0x0A]])"
    by (simp add: comment_statement_def tok_def)
  have adj: "lineno ?cl = lineno ?kw - 1" by simp
  have ne: "[comment_statement 4] \<noteq> []" by simp
  have kind: "''funcdef'' = ''classdef'' \<or> ''funcdef'' = ''funcdef'' \<and> \<not> AsyncFunction ?pos"
    by (simp add: AsyncFunction_def commented_module_def)
  have na: "''ASYNC'' \<notin> NodeName ` set ([comment_statement 4] @ Leaf ?kw # ?rest)"
    by (simp add: func_def tok_def comment_statement_def)
  have v: "Visit two_blank_lines ?pos
             (Node ''funcdef'' ([comment_statement 4] @ Leaf ?kw # ?rest)) ?st = Inr ?st'"
    by code_simp
  note g = comment_glue [OF cms last ne adj, of two_blank_lines ?pos "''funcdef''" ?rest ?st ?st']
  from g have "SetBlankLinesBetweenCommentAndClassFunc two_blank_lines ?pos
      (Node ''funcdef'' ([comment_statement 4] @ Leaf ?kw # ?rest)) ?st
      = Inr (length [comment_statement 4],
             add_writes ((if last_was_decorator ?st then []
                          else map (\<lambda>i. (path_of ?pos @ [i, 0], Some 2))
                                 [0..<length [comment_statement 4]])
                         @ [(path_of ?pos @ [length [comment_statement 4]], Some 1)]) ?st)"
    by (rule conjunct1)
  then have A: "SetBlankLinesBetweenCommentAndClassFunc two_blank_lines ?pos
      (Node ''funcdef'' (comment_statement 4 # func 5 0 ''g'')) ?st
      = Inr (1, \<lparr>class_level = 0, function_level = 0, last_comment_lineno = 0,
              last_was_decorator = False, last_was_class_or_function = True,
              newlines = [([0, 0], Some 1), ([0, 0], Some 1),
                          ([1, 0, 0], Some 2), ([1, 1], Some 1)]\<rparr>)"
    by (simp add: func_def tok_def add_writes_def path_of_def)
  from kind na v have H: "(''funcdef'' = ''classdef'' \<or> ''funcdef'' = ''funcdef'' \<and> \<not> AsyncFunction ?pos)
      \<and> ''ASYNC'' \<notin> NodeName ` set ([comment_statement 4] @ Leaf ?kw # ?rest)
      \<and> Visit two_blank_lines ?pos
             (Node ''funcdef'' ([comment_statement 4] @ Leaf ?kw # ?rest)) ?st = Inr ?st'"
    by (intro conjI)
  from g [THEN conjunct2, THEN mp, OF H]
  have C: "required_newlines ?st' [1, 1] = Some (Some 1)
      \<and> required_newlines ?st' [1, 0, 0] = Some (Some 2)"
    by (simp add: path_of_def)
  from A C show ?thesis by (intro conjI) blast+
qed

theorem written_values_witness:
  "RequiredBlankLines two_blank_lines async_module
     = Inr [([0, 0], Some 1), ([0, 0], Some 1), ([1, 0], Some 3), ([1, 1, 0], Some 3),
            ([1, 0], Some 3), ([1, 1, 0], None)]
   \<and> [1, 1, 0] \<in> set (async_keywords [] async_module)"
proof -
  have run: "RequiredBlankLines two_blank_lines async_module
     = Inr [([0, 0], Some 1), ([0, 0], Some 1), ([1, 0], Some 3), ([1, 1, 0], Some 3),
            ([1, 0], Some 3), ([1, 1, 0], None)]"
    by code_simp
  have mem: "([1, 1, 0], None) \<in> set [([0, 0], Some 1), ([0, 0], Some 1), ([1, 0], Some 3),
      ([1, 1, 0], Some 3), ([1, 0], Some 3), ([1, 1, 0], None :: int option)]" by simp
  from written_values [OF run mem] run show ?thesis by simp
qed

end
